theory Spec2Isabelle
  imports Complex_Main "HOL-Library.Sublist" "HOL-Library.Word" "HOL-Library.Log_Nat"
begin

section \<open>Numbers and their text forms\<close>

text \<open>
  The TypeScript sources compute with the single type \<open>number\<close>. Timestamps, sampling
  coordinates and vector components are modelled as \<^typ>\<open>real\<close>: every finite double is a
  real. Where the outcome depends on how double arithmetic rounds, which is the case in the
  export loop that accumulates its step, every operation is followed by \<open>round64\<close> below;
  in rotation and sampling arithmetic is taken exactly. Slider angles, pixel sizes and
  camera ids are whole numbers in the program (range inputs with step 1, \<open>Math.round\<close>,
  \<open>nextId++\<close>) and are modelled as \<^typ>\<open>int\<close>. \<open>NaN\<close>, the infinities and results
  beyond the largest double are outside the model.

  Template literals print a whole number in decimal with a leading minus sign when negative.
\<close>

definition digit_char :: "nat \<Rightarrow> char" where
  "digit_char d = ''0123456789'' ! d"

fun decimal :: "nat \<Rightarrow> string" where
  "decimal n = (if n < 10 then [digit_char n] else decimal (n div 10) @ [digit_char (n mod 10)])"

declare decimal.simps [simp del]

definition numToString :: "int \<Rightarrow> string" where
  "numToString i = (if i < 0 then CHR ''-'' # decimal (nat (- i)) else decimal (nat i))"

text \<open>
  \<open>Number.prototype.toFixed(f)\<close> for a finite \<open>x\<close> with \<open>\<bar>x\<bar> < 10\<^sup>2\<^sup>1\<close>, following the
  language standard: the sign is split off, \<open>n\<close> is the integer nearest to \<open>x \<sqdot> 10\<^sup>f\<close> (the larger
  one on a tie), its decimal digits are padded with zeros to at least \<open>f + 1\<close> places and the
  point is put before the last \<open>f\<close> of them. The standard works on the exact value of the
  double, so this is what the program prints for every such double.
\<close>

definition nearest :: "nat \<Rightarrow> real \<Rightarrow> nat" where
  "nearest f x = nat \<lfloor>x * 10 ^ f + 1 / 2\<rfloor>"

definition fixed_digits :: "nat \<Rightarrow> nat \<Rightarrow> string" where
  "fixed_digits f n =
     (let m = decimal n in
      if f \<noteq> 0
      then (let k = length m;
                mz = (if k \<le> f then replicate (f + 1 - k) CHR ''0'' @ m else m);
                kz = (if k \<le> f then f + 1 else k)
            in take (kz - f) mz @ ''.'' @ drop (kz - f) mz)
      else m)"

definition toFixed :: "nat \<Rightarrow> real \<Rightarrow> string" where
  "toFixed f x =
     (if x < 0 then CHR ''-'' # fixed_digits f (nearest f (- x))
      else fixed_digits f (nearest f x))"

text \<open>\<open>String.prototype.includes\<close>: the argument occurs as a contiguous part.\<close>

fun str_includes :: "string \<Rightarrow> string \<Rightarrow> bool" where
  "str_includes [] sub = (sub = [])"
| "str_includes (c # cs) sub = (prefix sub (c # cs) \<or> str_includes cs sub)"

text \<open>Reading a decimal numeral back; used only to show that printing loses nothing.\<close>

definition is_digit :: "char \<Rightarrow> bool" where
  "is_digit c = (c \<in> set ''0123456789'')"

definition digit_val :: "char \<Rightarrow> nat" where
  "digit_val c = of_char c - 48"

definition digits_value :: "string \<Rightarrow> nat" where
  "digits_value s = foldl (\<lambda>a c. 10 * a + digit_val c) 0 s"

text \<open>
  Double precision (IEEE 754 binary64, round to nearest, ties to even). For \<open>x > 0\<close>,
  \<open>expo x\<close> is the exponent \<open>e\<close> with \<open>2\<^sup>e \<le> x < 2\<^sup>e\<^sup>+\<^sup>1\<close>; the doubles around \<open>x\<close> are the
  multiples of \<open>ulp x\<close>, which is \<open>2\<^sup>e\<^sup>-\<^sup>5\<^sup>2\<close> and \<open>2\<^sup>-\<^sup>1\<^sup>0\<^sup>7\<^sup>4\<close> in the subnormal range;
  \<open>round64 x\<close> is the multiple nearest to \<open>x\<close>, the even one on a tie. The sum, the
  quotient and a decimal literal of the program are \<open>round64\<close> of the exact sum, quotient
  and value.
\<close>

definition expo :: "real \<Rightarrow> int" where
  "expo x = (if 1 \<le> x then bitlen \<lfloor>x\<rfloor> - 1 else - bitlen (\<lceil>1 / x\<rceil> - 1))"

definition round_even :: "real \<Rightarrow> int" where
  "round_even q =
     (let n = \<lfloor>q\<rfloor>; r = q - of_int n
      in if r < 1 / 2 then n
         else if 1 / 2 < r then n + 1
         else if even n then n else n + 1)"

definition ulp :: "real \<Rightarrow> real" where
  "ulp x = 2 powi (max (expo \<bar>x\<bar>) (- 1022) - 52)"

definition round64 :: "real \<Rightarrow> real" where
  "round64 x = (if x = 0 then 0 else of_int (round_even (x / ulp x)) * ulp x)"


section \<open>Data model (\<open>types.ts\<close>, \<open>providers.ts\<close>)\<close>

record Angle =
  pitch :: int
  yaw :: int
  roll :: int

record VirtualCamera =
  cam_id :: int
  cam_label :: string
  previewDataUrl :: string
  cam_time :: real
  cam_angle :: Angle

record ProcessedFrame =
  tsSec :: real
  dataUrl :: string
  width :: int
  height :: int

text \<open>An \<open>ImageData\<close>: dimensions and the row-major RGBA bytes (a \<open>Uint8ClampedArray\<close>).\<close>

record ImageData =
  img_width :: nat
  img_height :: nat
  img_data :: "8 word list"


section \<open>Projection math (preview helpers of \<open>App.svelte\<close>)\<close>

definition toRad :: "real \<Rightarrow> real" where
  "toRad deg = (deg * pi) / 180"

type_synonym vec3 = "real \<times> real \<times> real"

text \<open>\<open>rotateVec\<close> returns the object \<open>{x, y, z}\<close>, here the triple \<open>(x, y, z)\<close>.\<close>

definition rotateVec :: "real \<Rightarrow> real \<Rightarrow> real \<Rightarrow> real \<Rightarrow> real \<Rightarrow> real \<Rightarrow> vec3" where
  "rotateVec vx vy vz yawDeg pitchDeg rollDeg =
     (let yaw = toRad yawDeg;
          pitch = toRad pitchDeg;
          roll = toRad rollDeg;
          x = vx * cos yaw + vz * sin yaw;
          y = vy;
          z = - vx * sin yaw + vz * cos yaw;
          x2 = x;
          y2 = y * cos pitch - z * sin pitch;
          z2 = y * sin pitch + z * cos pitch;
          xr = x2 * cos roll - y2 * sin roll;
          yr = x2 * sin roll + y2 * cos roll;
          zr = z2
      in (xr, yr, zr))"

text \<open>
  The specification's wording, for comparison with \<open>rotateVec\<close>: the standard \<open>3 \<times> 3\<close>
  rotation matrices (given by rows) about the vertical axis \<open>y\<close>, the horizontal axis \<open>x\<close>
  and the optical axis \<open>z\<close>, and the product of a matrix with a vector.
\<close>

type_synonym mat3 = "vec3 \<times> vec3 \<times> vec3"

definition dot :: "vec3 \<Rightarrow> vec3 \<Rightarrow> real" where
  "dot a b = (case a of (a1, a2, a3) \<Rightarrow> case b of (b1, b2, b3) \<Rightarrow> a1 * b1 + a2 * b2 + a3 * b3)"

definition mat_vec :: "mat3 \<Rightarrow> vec3 \<Rightarrow> vec3" where
  "mat_vec m v = (case m of (r1, r2, r3) \<Rightarrow> (dot r1 v, dot r2 v, dot r3 v))"

definition rot_vertical :: "real \<Rightarrow> mat3" where
  "rot_vertical t = ((cos t, 0, sin t), (0, 1, 0), (- sin t, 0, cos t))"

definition rot_horizontal :: "real \<Rightarrow> mat3" where
  "rot_horizontal t = ((1, 0, 0), (0, cos t, - sin t), (0, sin t, cos t))"

definition rot_optical :: "real \<Rightarrow> mat3" where
  "rot_optical t = ((cos t, - sin t, 0), (sin t, cos t, 0), (0, 0, 1))"

text \<open>
  Reading \<open>d[i]\<close> from the typed array gives \<open>undefined\<close> outside the array; arithmetic on it
  gives \<open>NaN\<close>, which a \<open>Uint8ClampedArray\<close> stores as 0. \<open>Math.round\<close> rounds half up, and
  the store clamps to \<open>0..255\<close>. A store outside the output array is ignored, as is a list
  update outside the list.
\<close>

definition sample_at :: "8 word list \<Rightarrow> int \<Rightarrow> real option" where
  "sample_at d i = (if 0 \<le> i \<and> nat i < length d then Some (real (unat (d ! nat i))) else None)"

definition math_round :: "real \<Rightarrow> int" where
  "math_round r = \<lfloor>r + 1 / 2\<rfloor>"

definition toUint8Clamp :: "int \<Rightarrow> 8 word" where
  "toUint8Clamp n = word_of_int (max 0 (min 255 n))"

text \<open>
  \<open>bilinearSample(img, u, v, out, o)\<close> writes four channels into \<open>out\<close> from offset \<open>o\<close>;
  the model returns the updated array. The parameters \<open>u\<close>, \<open>v\<close> are reassigned in the
  source (\<open>u0\<close>, \<open>v0\<close> are their incoming values); the offset is called \<open>ofs\<close>.
\<close>

definition bilinearSample :: "ImageData \<Rightarrow> real \<Rightarrow> real \<Rightarrow> 8 word list \<Rightarrow> nat \<Rightarrow> 8 word list" where
  "bilinearSample img u0 v0 out ofs =
     (let w = int (img_width img);
          h = int (img_height img);
          u = u0 - of_int \<lfloor>u0\<rfloor>;
          v = max 0 (min 1 v0);
          x = u * of_int (w - 1);
          y = v * of_int (h - 1);
          x0 = \<lfloor>x\<rfloor>;
          y0 = \<lfloor>y\<rfloor>;
          x1 = min (x0 + 1) (w - 1);
          y1 = min (y0 + 1) (h - 1);
          dx = x - of_int x0;
          dy = y - of_int y0;
          d = img_data img;
          idx = (\<lambda>xx yy. (yy * w + xx) * 4);
          i00 = idx x0 y0;
          i10 = idx x1 y0;
          i01 = idx x0 y1;
          i11 = idx x1 y1
      in fold (\<lambda>c acc.
            acc[ofs + c :=
              (case (sample_at d (i00 + int c), sample_at d (i10 + int c),
                     sample_at d (i01 + int c), sample_at d (i11 + int c)) of
                 (Some p00, Some p10, Some p01, Some p11) \<Rightarrow>
                   (let p0 = p00 + (p10 - p00) * dx;
                        p1 = p01 + (p11 - p01) * dx
                    in toUint8Clamp (math_round (p0 + (p1 - p0) * dy)))
               | _ \<Rightarrow> 0)])
          [0, 1, 2, 3] out)"


section \<open>Frame provider (\<open>InsvFrameProvider\<close>)\<close>

text \<open>
  The backend (ffmpeg.wasm), the browser's image decoder and the canvas are outside the
  program. Each awaited operation either resolves or rejects with a thrown value; what it
  does in one call of \<open>frameAt\<close> is given by a \<open>backend_env\<close>. A \<open>trace\<close> lists the awaited
  operations in order, each with the provider state that other callers can observe while the
  operation is pending.

  The field \<open>ffmpeg\<close> holds the identity of the backend object (\<open>None\<close> for \<open>null\<close>);
  \<open>new FFmpeg()\<close> yields an identity not used before.
\<close>

datatype media_source = File string | Blob

datatype thrown = Thrown (message: "string option")

datatype origin =
    FromExec | FromToBlobURL | FromLoad | FromArrayBuffer | FromWriteFile | FromCanvas

text \<open>
  What \<open>frameAt\<close> can throw: its own three errors \<open>'FFmpeg not loaded'\<close>,
  \<open>'FFmpeg is busy'\<close> and \<open>'Failed to extract reprojected frame'\<close>, or a value thrown by an
  awaited operation and passed on unchanged.
\<close>

datatype frame_error = NotLoaded | Busy | ExtractFailed | Raised origin thrown

datatype file_data = Binary "8 word list" | Text string

datatype ImageBitmap = ImageBitmap nat

datatype backend_op =
    Exec nat "string list"
  | Terminate nat
  | ToBlobURL string
  | Load nat
  | CreateDir nat string
  | Mount nat string
  | ArrayBuffer
  | WriteFile nat "string option"
  | ReadFile nat string
  | CreateImageBitmap
  | DeleteFile nat string

record backend_env =
  exec_out :: "thrown option"
  terminate_out :: "thrown option"
  coreURL_out :: "thrown option"
  wasmURL_out :: "thrown option"
  load_out :: "thrown option"
  createDir_out :: "thrown option"
  mount_out :: "thrown option"
  arrayBuffer_out :: "thrown option"
  writeFile_out :: "thrown option"
  readFile_out :: "thrown + file_data"
  createImageBitmap_out :: "thrown + ImageBitmap"
  deleteFile_out :: "thrown option"
  canvas_out :: "thrown + string"

record InsvFrameProvider =
  ffmpeg :: "nat option"
  name :: "string option"
  isProcessing :: bool
  source :: "media_source option"
  originalName :: "string option"
  lastProcessedKey :: "string option"
  lastProcessedResult :: "ProcessedFrame option"

type_synonym trace = "(backend_op \<times> InsvFrameProvider) list"

definition baseURL :: string where
  "baseURL = ''https://unpkg.com/@ffmpeg/core@0.12.10/dist/esm''"

definition mountPath :: "InsvFrameProvider \<Rightarrow> media_source \<Rightarrow> string" where
  "mountPath p src =
     ''/mnt/'' @ (case src of File n \<Rightarrow> n
                  | Blob \<Rightarrow> (case originalName p of Some n \<Rightarrow> n | None \<Rightarrow> ''null''))"

text \<open>The \<open>catch\<close> branch of \<open>mountSource\<close>: write the whole file under its original name.\<close>

definition writeFallback ::
  "backend_env \<Rightarrow> InsvFrameProvider \<Rightarrow> nat \<Rightarrow> trace \<Rightarrow>
   frame_error option \<times> InsvFrameProvider \<times> trace" where
  "writeFallback env p i tr =
     (case arrayBuffer_out env of
        Some e \<Rightarrow> (Some (Raised FromArrayBuffer e), p, tr @ [(ArrayBuffer, p)])
      | None \<Rightarrow>
          (case writeFile_out env of
             Some e \<Rightarrow> (Some (Raised FromWriteFile e), p,
                         tr @ [(ArrayBuffer, p), (WriteFile i (originalName p), p)])
           | None \<Rightarrow> (None, p\<lparr>name := originalName p\<rparr>,
                       tr @ [(ArrayBuffer, p), (WriteFile i (originalName p), p)])))"

definition mountSource ::
  "backend_env \<Rightarrow> InsvFrameProvider \<Rightarrow> frame_error option \<times> InsvFrameProvider \<times> trace" where
  "mountSource env p =
     (case ffmpeg p of
        None \<Rightarrow> (None, p, [])
      | Some i \<Rightarrow>
          (case source p of
             None \<Rightarrow> (None, p, [])
           | Some src \<Rightarrow>
               (case createDir_out env of
                  Some _ \<Rightarrow> writeFallback env p i [(CreateDir i ''/mnt'', p)]
                | None \<Rightarrow>
                    (case mount_out env of
                       Some _ \<Rightarrow>
                         writeFallback env p i [(CreateDir i ''/mnt'', p), (Mount i ''/mnt'', p)]
                     | None \<Rightarrow>
                         (None, p\<lparr>name := Some (mountPath p src)\<rparr>,
                          [(CreateDir i ''/mnt'', p), (Mount i ''/mnt'', p)])))))"

definition newFFmpeg :: "nat option \<Rightarrow> nat" where
  "newFFmpeg old = (case old of None \<Rightarrow> 0 | Some i \<Rightarrow> Suc i)"

text \<open>
  \<open>reinit\<close>: terminate the old backend (a failure of that is ignored), create a new one,
  fetch its two assets, load it, mount the source again.
\<close>

definition reinit ::
  "backend_env \<Rightarrow> InsvFrameProvider \<Rightarrow> frame_error option \<times> InsvFrameProvider \<times> trace" where
  "reinit env p =
     (let tr0 = (case ffmpeg p of None \<Rightarrow> [] | Some i \<Rightarrow> [(Terminate i, p)]);
          j = newFFmpeg (ffmpeg p);
          p1 = p\<lparr>ffmpeg := Some j\<rparr>;
          tr1 = tr0 @ [(ToBlobURL (baseURL @ ''/ffmpeg-core.js''), p1)]
      in case coreURL_out env of
           Some e \<Rightarrow> (Some (Raised FromToBlobURL e), p1, tr1)
         | None \<Rightarrow>
             (let tr2 = tr1 @ [(ToBlobURL (baseURL @ ''/ffmpeg-core.wasm''), p1)]
              in case wasmURL_out env of
                   Some e \<Rightarrow> (Some (Raised FromToBlobURL e), p1, tr2)
                 | None \<Rightarrow>
                     (let tr3 = tr2 @ [(Load j, p1)]
                      in case load_out env of
                           Some e \<Rightarrow> (Some (Raised FromLoad e), p1, tr3)
                         | None \<Rightarrow>
                             (case mountSource env p1 of
                                (r, p2, tr4) \<Rightarrow> (r, p2, tr3 @ tr4)))))"

text \<open>The test \<open>e?.message?.includes('out of bounds') || e?.message?.includes('Aborted')\<close>.\<close>

definition fatal :: "thrown \<Rightarrow> bool" where
  "fatal e = (case message e of
                None \<Rightarrow> False
              | Some m \<Rightarrow> str_includes m ''out of bounds'' \<or> str_includes m ''Aborted'')"

definition key :: "real \<Rightarrow> Angle \<Rightarrow> int \<Rightarrow> int \<Rightarrow> string" where
  "key ts a w h =
     toFixed 3 ts @ ''-'' @ numToString (pitch a) @ ''-'' @ numToString (yaw a) @ ''-'' @
     numToString (roll a) @ ''-'' @ numToString w @ ''-'' @ numToString h"

definition filter_complex :: "Angle \<Rightarrow> int \<Rightarrow> int \<Rightarrow> string" where
  "filter_complex a w h =
     ''[0:v:0]v360=input=fisheye:output=fisheye[front_corr]; '' @
     ''[0:v:1]v360=input=fisheye:output=fisheye[rear_corr]; '' @
     ''[front_corr][rear_corr]hstack=inputs=2[stacked]; '' @
     ''[stacked]v360=input=dfisheye:output=rectilinear:ih_fov=190:iv_fov=190:'' @
     ''yaw='' @ numToString (yaw a) @ '':pitch='' @ numToString (pitch a) @
     '':roll='' @ numToString (roll a) @ '':'' @
     ''h_fov=90:v_fov=90:w='' @ numToString w @ '':h='' @ numToString h @ '',format=yuvj420p''"

definition outName :: string where
  "outName = ''out.jpg''"

definition args :: "string \<Rightarrow> real \<Rightarrow> Angle \<Rightarrow> int \<Rightarrow> int \<Rightarrow> string list" where
  "args nm ts a w h =
     [''-threads'', ''1'', ''-ss'', toFixed 3 ts, ''-i'', nm,
      ''-filter_complex'', filter_complex a w h, ''-frames:v'', ''1'', ''-c:v'', ''mjpeg'',
      ''-pix_fmt'', ''yuvj420p'', ''-q:v'', ''4'', ''-update'', ''1'', outName]"

text \<open>\<open>readImage\<close> never throws: every failure inside it yields \<open>null\<close>.\<close>

definition readImage ::
  "backend_env \<Rightarrow> InsvFrameProvider \<Rightarrow> string \<Rightarrow> ImageBitmap option \<times> trace" where
  "readImage env p filename =
     (case ffmpeg p of
        None \<Rightarrow> (None, [])
      | Some i \<Rightarrow>
          (case readFile_out env of
             Inl _ \<Rightarrow> (None, [(ReadFile i filename, p)])
           | Inr (Text _) \<Rightarrow> (None, [(ReadFile i filename, p)])
           | Inr (Binary _) \<Rightarrow>
               (case createImageBitmap_out env of
                  Inl _ \<Rightarrow> (None, [(ReadFile i filename, p), (CreateImageBitmap, p)])
                | Inr bm \<Rightarrow> (Some bm, [(ReadFile i filename, p), (CreateImageBitmap, p)]))))"

text \<open>
  An \<open>async\<close> function runs without interruption up to its first \<open>await\<close>.
  \<open>frameAt_start\<close> is that first stretch of \<open>frameAt\<close>: it ends by returning the cached
  frame, by throwing, or by issuing \<open>exec\<close> with the busy flag set.
\<close>

datatype started = Returned ProcessedFrame | Threw frame_error | Awaiting "string list"

definition frameAt_start ::
  "InsvFrameProvider \<Rightarrow> real \<Rightarrow> Angle \<Rightarrow> int \<Rightarrow> int \<Rightarrow> started \<times> InsvFrameProvider" where
  "frameAt_start p ts a w h =
     (case ffmpeg p of
        None \<Rightarrow> (Threw NotLoaded, p)
      | Some i \<Rightarrow>
          (case name p of
             None \<Rightarrow> (Threw NotLoaded, p)
           | Some nm \<Rightarrow>
               if nm = [] then (Threw NotLoaded, p)
               else if lastProcessedKey p = Some (key ts a w h) \<and> lastProcessedResult p \<noteq> None
               then (Returned (the (lastProcessedResult p)), p)
               else if isProcessing p then (Threw Busy, p)
               else (Awaiting (args nm ts a w h), p\<lparr>isProcessing := True\<rparr>)))"

text \<open>
  After \<open>exec\<close> has settled without a fatal error: read and decode \<open>out.jpg\<close>, delete it,
  clear the busy flag (the \<open>finally\<close>), draw to a canvas and store the result in the cache.
\<close>

definition finish ::
  "backend_env \<Rightarrow> InsvFrameProvider \<Rightarrow> real \<Rightarrow> Angle \<Rightarrow> int \<Rightarrow> int \<Rightarrow> trace \<Rightarrow>
   (frame_error + ProcessedFrame) \<times> InsvFrameProvider \<times> trace" where
  "finish env p ts a w h tr0 =
     (case readImage env p outName of
        (resultBitmap, tr1) \<Rightarrow>
          (let tr2 = tr0 @ tr1 @
                 (case ffmpeg p of None \<Rightarrow> [] | Some i \<Rightarrow> [(DeleteFile i outName, p)])
           in case resultBitmap of
                None \<Rightarrow> (Inl ExtractFailed, p\<lparr>isProcessing := False\<rparr>, tr2)
              | Some bm \<Rightarrow>
                  (let p1 = p\<lparr>isProcessing := False\<rparr>
                   in case canvas_out env of
                        Inl e \<Rightarrow> (Inl (Raised FromCanvas e), p1, tr2)
                      | Inr url \<Rightarrow>
                          (let result = \<lparr>tsSec = ts, dataUrl = url, width = w, height = h\<rparr>
                           in (Inr result,
                               p1\<lparr>lastProcessedKey := Some (key ts a w h),
                                  lastProcessedResult := Some result\<rparr>,
                               tr2)))))"

definition frameAt_resume ::
  "backend_env \<Rightarrow> InsvFrameProvider \<Rightarrow> string list \<Rightarrow> real \<Rightarrow> Angle \<Rightarrow> int \<Rightarrow> int \<Rightarrow>
   (frame_error + ProcessedFrame) \<times> InsvFrameProvider \<times> trace" where
  "frameAt_resume env p av ts a w h =
     (let tr0 = (case ffmpeg p of None \<Rightarrow> [] | Some i \<Rightarrow> [(Exec i av, p)])
      in case exec_out env of
           None \<Rightarrow> finish env p ts a w h tr0
         | Some e \<Rightarrow>
             if fatal e
             then (case reinit env p of
                     (None, p', tr) \<Rightarrow>
                       (Inl (Raised FromExec e), p'\<lparr>isProcessing := False\<rparr>, tr0 @ tr)
                   | (Some re, p', tr) \<Rightarrow> (Inl re, p'\<lparr>isProcessing := False\<rparr>, tr0 @ tr))
             else finish env p ts a w h tr0)"

text \<open>A whole call of \<open>frameAt\<close> that nothing else interleaves with.\<close>

definition frameAt ::
  "backend_env \<Rightarrow> InsvFrameProvider \<Rightarrow> real \<Rightarrow> Angle \<Rightarrow> int \<Rightarrow> int \<Rightarrow>
   (frame_error + ProcessedFrame) \<times> InsvFrameProvider \<times> trace" where
  "frameAt env p ts a w h =
     (case frameAt_start p ts a w h of
        (Returned r, p') \<Rightarrow> (Inr r, p', [])
      | (Threw e, p') \<Rightarrow> (Inl e, p', [])
      | (Awaiting av, p') \<Rightarrow> frameAt_resume env p' av ts a w h)"


section \<open>Export (\<open>extractFrames\<close> in \<open>App.svelte\<close>)\<close>

text \<open>The character class \<open>[a-z0-9-_]\<close> under the flag \<open>i\<close>.\<close>

definition allowed :: "char \<Rightarrow> bool" where
  "allowed c = (c \<in> set ''abcdefghijklmnopqrstuvwxyzABCDEFGHIJKLMNOPQRSTUVWXYZ0123456789-_'')"

text \<open>
  \<open>label.replace(/[^a-z0-9-_]+/gi, '_')\<close>: scanning from the left, every match of the
  pattern, which is greedy, is replaced by one underscore.
\<close>

function sanitize :: "string \<Rightarrow> string" where
  "sanitize [] = []"
| "sanitize (c # cs) =
     (if allowed c then c # sanitize cs
      else CHR ''_'' # sanitize (dropWhile (\<lambda>d. \<not> allowed d) cs))"
  by pat_completeness auto
termination
  by (relation "measure length") (auto simp: le_imp_less_Suc length_dropWhile_le)

text \<open>
  The specification's wording, for comparison with \<open>sanitize\<close>: every single character
  outside the class becomes an underscore.
\<close>

definition replace_each :: "string \<Rightarrow> string" where
  "replace_each s = map (\<lambda>c. if allowed c then c else CHR ''_'') s"

definition safeLabel :: "VirtualCamera \<Rightarrow> string" where
  "safeLabel cam =
     (let s = sanitize (cam_label cam)
      in if s = [] then ''Angle_'' @ numToString (cam_id cam) else s)"

definition tsStr :: "real \<Rightarrow> string" where
  "tsStr ts = map (\<lambda>c. if c = CHR ''.'' then CHR ''_'' else c) (toFixed 2 ts)"

definition fname :: "VirtualCamera \<Rightarrow> real \<Rightarrow> string" where
  "fname cam ts = safeLabel cam @ ''_'' @ tsStr ts @ ''.jpg''"

text \<open>
  \<open>const step = 1 / Math.max(1, samplesPerSecond)\<close>, and the loop bound
  \<open>duration + 1e-6\<close>, both in double arithmetic.
\<close>

definition step :: "real \<Rightarrow> real" where
  "step samplesPerSecond = round64 (1 / max 1 samplesPerSecond)"

definition bound :: "real \<Rightarrow> real" where
  "bound duration = round64 (duration + round64 (1 / 1000000))"

text \<open>
  The loop \<open>for (let t = 0; t <= duration + 1e-6; t += step) times.push(Math.min(t, duration))\<close>
  from the value \<open>t\<close> on, with the step \<open>st\<close>. Each \<open>t += step\<close> is a double addition. A
  step too small to change \<open>t\<close> keeps the loop from ending; \<open>None\<close> stands for that.
\<close>

partial_function (option) times_from :: "real \<Rightarrow> real \<Rightarrow> real \<Rightarrow> real list option" where
  "times_from st duration t =
     (if t \<le> bound duration
      then Option.bind (times_from st duration (round64 (t + st)))
             (\<lambda>rest. Some (min t duration # rest))
      else Some [])"

declare times_from.simps [code]

definition export_times :: "real \<Rightarrow> real \<Rightarrow> real list option" where
  "export_times samplesPerSecond duration = times_from (step samplesPerSecond) duration 0"

text \<open>
  The value of \<open>t\<close> after \<open>k\<close> rounds of the loop: \<open>k\<close> double additions of the step to 0.
\<close>

primrec running_sum :: "real \<Rightarrow> nat \<Rightarrow> real" where
  "running_sum st 0 = 0"
| "running_sum st (Suc k) = round64 (running_sum st k + st)"

text \<open>
  \<open>extractFrames\<close> up to the point of rendering: its three guards, and otherwise the cells
  \<open>(ts, cam)\<close> it visits in order when the export is not cancelled, each with the file name
  under which the rendered frame is stored. \<open>loaded\<close> says that both the provider and the
  video element are present. \<open>None\<close>: the timestamp loop does not end.
\<close>

definition extractFrames ::
  "bool \<Rightarrow> real \<Rightarrow> real \<Rightarrow> VirtualCamera list \<Rightarrow>
   (string + (real \<times> VirtualCamera \<times> string) list) option" where
  "extractFrames loaded samplesPerSecond duration angles =
     (if \<not> loaded then Some (Inl ''No video/provider loaded.'')
      else if angles = [] then Some (Inl ''Please add at least one camera angle.'')
      else if duration \<le> 0 then Some (Inl ''Unknown video duration.'')
      else map_option
             (\<lambda>times. Inr (concat (map (\<lambda>ts. map (\<lambda>cam. (ts, cam, fname cam ts)) angles) times)))
             (export_times samplesPerSecond duration))"


section \<open>Sample values\<close>

definition angle0 :: Angle where
  "angle0 = \<lparr>pitch = 0, yaw = 0, roll = 0\<rparr>"

definition camera1 :: VirtualCamera where
  "camera1 = \<lparr>cam_id = 1, cam_label = ''Angle 1'', previewDataUrl = '''', cam_time = 0,
              cam_angle = angle0\<rparr>"

definition frame1 :: ProcessedFrame where
  "frame1 = \<lparr>tsSec = 1, dataUrl = ''data:image/jpeg;base64,AA'', width = 240, height = 135\<rparr>"

definition provider_ready :: InsvFrameProvider where
  "provider_ready =
     \<lparr>ffmpeg = Some 0, name = Some ''/mnt/clip.insv'', isProcessing = False,
      source = Some (File ''clip.insv''), originalName = Some ''clip.insv'',
      lastProcessedKey = None, lastProcessedResult = None\<rparr>"

definition provider_cached :: InsvFrameProvider where
  "provider_cached =
     provider_ready\<lparr>lastProcessedKey := Some ''1.000-0-0-0-240-135'',
                     lastProcessedResult := Some frame1\<rparr>"

definition env_ok :: backend_env where
  "env_ok =
     \<lparr>exec_out = None, terminate_out = None, coreURL_out = None, wasmURL_out = None,
      load_out = None, createDir_out = None, mount_out = None, arrayBuffer_out = None,
      writeFile_out = None, readFile_out = Inr (Binary [255, 216]),
      createImageBitmap_out = Inr (ImageBitmap 1), deleteFile_out = None,
      canvas_out = Inr ''data:image/jpeg;base64,AA''\<rparr>"

definition env_aborted :: backend_env where
  "env_aborted = env_ok\<lparr>exec_out := Some (Thrown (Some ''Aborted()''))\<rparr>"

definition env_reload_fails :: backend_env where
  "env_reload_fails =
     env_aborted\<lparr>load_out := Some (Thrown (Some ''failed to import ffmpeg-core.js''))\<rparr>"

definition env_exec_rejected :: backend_env where
  "env_exec_rejected =
     env_ok\<lparr>exec_out := Some (Thrown (Some ''called FFmpeg.terminate()'')),
            readFile_out := Inl (Thrown (Some ''ErrnoError: FS error''))\<rparr>"

definition img2x2 :: ImageData where
  "img2x2 = \<lparr>img_width = 2, img_height = 2,
             img_data = [10, 20, 30, 255, 110, 120, 130, 255,
                         50, 60, 70, 255, 250, 240, 230, 255]\<rparr>"


section \<open>Printing numbers loses nothing\<close>

lemma below_ten: "d < 10 \<Longrightarrow> d \<in> {0, 1, 2, 3, 4, 5, 6, 7, 8, 9::nat}"
  by auto

lemma digit_char_is_digit: "d < 10 \<Longrightarrow> is_digit (digit_char d)"
  by (drule below_ten) (auto simp: digit_char_def is_digit_def)

lemma digit_val_digit_char: "d < 10 \<Longrightarrow> digit_val (digit_char d) = d"
  by (drule below_ten) (auto simp: digit_char_def digit_val_def)

lemma is_digit_not_minus: "is_digit c \<Longrightarrow> c \<noteq> CHR ''-''"
  by (auto simp: is_digit_def)

lemma is_digit_not_dot: "is_digit c \<Longrightarrow> c \<noteq> CHR ''.''"
  by (auto simp: is_digit_def)

lemma decimal_digits: "c \<in> set (decimal n) \<Longrightarrow> is_digit c"
proof (induction n arbitrary: c rule: decimal.induct)
  case (1 n)
  show ?case
  proof (cases "n < 10")
    case True
    with "1.prems" show ?thesis
      by (simp add: decimal.simps [of n] digit_char_is_digit)
  next
    case False
    with "1.prems" "1.IH" show ?thesis
      by (auto simp: decimal.simps [of n] digit_char_is_digit)
  qed
qed

lemma decimal_nonempty: "decimal n \<noteq> []"
  by (subst decimal.simps) simp

lemma digits_value_snoc: "digits_value (s @ [c]) = 10 * digits_value s + digit_val c"
  by (simp add: digits_value_def)

lemma digits_value_decimal: "digits_value (decimal n) = n"
proof (induction n rule: decimal.induct)
  case (1 n)
  show ?case
  proof (cases "n < 10")
    case True
    then show ?thesis
      by (simp add: decimal.simps [of n] digits_value_def digit_val_digit_char)
  next
    case False
    with "1.IH" show ?thesis
      by (simp add: decimal.simps [of n] digits_value_snoc digit_val_digit_char)
  qed
qed

lemma decimal_inj: "decimal a = decimal b \<Longrightarrow> a = b"
  by (metis digits_value_decimal)

lemma digits_value_zeros: "digits_value (replicate k CHR ''0'' @ s) = digits_value s"
proof -
  have "foldl (\<lambda>a c. 10 * a + digit_val c) 0 (replicate k CHR ''0'') = 0"
    by (induction k) (simp_all add: digit_val_def)
  then show ?thesis by (simp add: digits_value_def)
qed


lemma decimal_no_minus: "CHR ''-'' \<notin> set (decimal n)"
  using decimal_digits is_digit_not_minus by blast

lemma decimal_no_dot: "CHR ''.'' \<notin> set (decimal n)"
  using decimal_digits is_digit_not_dot by blast

lemma fixed_digits_no_minus: "CHR ''-'' \<notin> set (fixed_digits f n)"
  using decimal_no_minus [of n]
  by (auto simp: fixed_digits_def Let_def dest!: in_set_takeD in_set_dropD)

lemma filter_no_dot: "CHR ''.'' \<notin> set xs \<Longrightarrow> filter (\<lambda>c. c \<noteq> CHR ''.'') xs = xs"
  by (induction xs) auto

lemma filter_take_drop:
  "CHR ''.'' \<notin> set xs \<Longrightarrow>
   filter (\<lambda>c. c \<noteq> CHR ''.'') (take i xs @ ''.'' @ drop i xs) = xs"
proof -
  assume a: "CHR ''.'' \<notin> set xs"
  then have "CHR ''.'' \<notin> set (take i xs)" and "CHR ''.'' \<notin> set (drop i xs)"
    by (auto dest: in_set_takeD in_set_dropD)
  then show ?thesis
    by (simp add: filter_no_dot)
qed

lemma fixed_digits_value:
  "digits_value (filter (\<lambda>c. c \<noteq> CHR ''.'') (fixed_digits f n)) = n"
proof (cases "f = 0")
  case True
  then show ?thesis
    using decimal_no_dot [of n]
    by (simp add: fixed_digits_def filter_no_dot digits_value_decimal)
next
  case False
  define k where "k = length (decimal n)"
  define mz where "mz = (if k \<le> f then replicate (f + 1 - k) CHR ''0'' @ decimal n else decimal n)"
  define kz where "kz = (if k \<le> f then f + 1 else k)"
  have fd: "fixed_digits f n = take (kz - f) mz @ ''.'' @ drop (kz - f) mz"
    using False by (simp add: fixed_digits_def Let_def mz_def kz_def k_def)
  have nd: "CHR ''.'' \<notin> set mz"
    using decimal_no_dot [of n] by (auto simp: mz_def)
  have "digits_value mz = n"
    by (simp add: mz_def digits_value_zeros digits_value_decimal)
  then show ?thesis
    unfolding fd filter_take_drop [OF nd] .
qed

lemma fixed_digits_inj: "fixed_digits f a = fixed_digits f b \<Longrightarrow> a = b"
  by (metis fixed_digits_value)

lemma toFixed_eq_iff:
  "toFixed f x = toFixed f y \<longleftrightarrow>
   (x < 0 \<longleftrightarrow> y < 0) \<and> nearest f \<bar>x\<bar> = nearest f \<bar>y\<bar>"
proof -
  have m: "CHR ''-'' # fixed_digits f a \<noteq> fixed_digits f b" for a b
    using fixed_digits_no_minus [of f b] by (metis list.set_intros(1))
  have m': "fixed_digits f b \<noteq> CHR ''-'' # fixed_digits f a" for a b
    using m [of a b] by simp
  show ?thesis
    by (auto simp: toFixed_def m m' abs_if dest: fixed_digits_inj)
qed

lemma toFixed_no_minus_tl: "CHR ''-'' \<notin> set (tl (toFixed f x))"
proof -
  have c: "CHR ''-'' \<notin> set (tl xs)" if "CHR ''-'' \<notin> set xs" for xs :: string
    using that by (cases xs) auto
  show ?thesis
    by (simp add: toFixed_def fixed_digits_no_minus c)
qed

lemma fixed_digits_nonempty: "fixed_digits f n \<noteq> []"
  by (simp add: fixed_digits_def Let_def decimal_nonempty)

lemma toFixed_nonempty: "toFixed f x \<noteq> []"
  by (simp add: toFixed_def fixed_digits_nonempty)

lemma numToString_nonempty: "numToString i \<noteq> []"
  by (simp add: numToString_def decimal_nonempty)

lemma numToString_no_minus_tl: "CHR ''-'' \<notin> set (tl (numToString i))"
proof -
  have c: "CHR ''-'' \<notin> set (tl xs)" if "CHR ''-'' \<notin> set xs" for xs :: string
    using that by (cases xs) auto
  show ?thesis
    by (simp add: numToString_def decimal_no_minus c)
qed

lemma numToString_inj: "numToString i = numToString j \<Longrightarrow> i = j"
proof -
  assume e: "numToString i = numToString j"
  have m: "CHR ''-'' # decimal a \<noteq> decimal b" for a b
    using decimal_no_minus [of b] by (metis list.set_intros(1))
  have m': "decimal b \<noteq> CHR ''-'' # decimal a" for a b
    using m [of a b] by simp
  from e show ?thesis
    by (auto simp: numToString_def m m' split: if_splits dest!: decimal_inj)
qed

text \<open>Joining tokens with a dash is unambiguous.\<close>

lemma first_dash_split:
  assumes "xs @ CHR ''-'' # r = ys @ CHR ''-'' # r'"
    and "CHR ''-'' \<notin> set xs" "CHR ''-'' \<notin> set ys"
  shows "xs = ys \<and> r = r'"
proof -
  have tw: "takeWhile (\<lambda>c. c \<noteq> CHR ''-'') (zs @ CHR ''-'' # q) = zs"
    if "CHR ''-'' \<notin> set zs" for zs q
    using that by (induction zs) auto
  have "takeWhile (\<lambda>c. c \<noteq> CHR ''-'') (xs @ CHR ''-'' # r) = xs"
    using assms(2) by (rule tw)
  moreover have "takeWhile (\<lambda>c. c \<noteq> CHR ''-'') (ys @ CHR ''-'' # r') = ys"
    using assms(3) by (rule tw)
  ultimately have "xs = ys" using assms(1) by simp
  with assms(1) show ?thesis by simp
qed

lemma token_split:
  assumes "a \<noteq> []" "b \<noteq> []"
    and "CHR ''-'' \<notin> set (tl a)" "CHR ''-'' \<notin> set (tl b)"
    and "a @ CHR ''-'' # r = b @ CHR ''-'' # r'"
  shows "a = b \<and> r = r'"
proof -
  from assms(1,2) obtain x xs y ys where a: "a = x # xs" and b: "b = y # ys"
    by (meson list.exhaust)
  with assms(5) have h: "x = y" and t: "xs @ CHR ''-'' # r = ys @ CHR ''-'' # r'"
    by simp_all
  from assms(3,4) a b have "CHR ''-'' \<notin> set xs" "CHR ''-'' \<notin> set ys"
    by simp_all
  with t have "xs = ys \<and> r = r'"
    by (rule first_dash_split)
  with h a b show ?thesis by simp
qed


section \<open>Facts about the frame provider\<close>

lemma key_eq_iff:
  "key t a w h = key t' a' w' h' \<longleftrightarrow>
   toFixed 3 t = toFixed 3 t' \<and> pitch a = pitch a' \<and> yaw a = yaw a' \<and> roll a = roll a' \<and>
   w = w' \<and> h = h'"
proof
  assume e: "key t a w h = key t' a' w' h'"
  note ts = token_split [OF toFixed_nonempty toFixed_nonempty toFixed_no_minus_tl toFixed_no_minus_tl]
  note ns = token_split [OF numToString_nonempty numToString_nonempty
      numToString_no_minus_tl numToString_no_minus_tl]
  from e have 1: "toFixed 3 t = toFixed 3 t'" and
    r1: "numToString (pitch a) @ ''-'' @ numToString (yaw a) @ ''-'' @
         numToString (roll a) @ ''-'' @ numToString w @ ''-'' @ numToString h =
         numToString (pitch a') @ ''-'' @ numToString (yaw a') @ ''-'' @
         numToString (roll a') @ ''-'' @ numToString w' @ ''-'' @ numToString h'"
    using ts [of 3 t _ 3 t'] by (simp_all add: key_def)
  from r1 have 2: "numToString (pitch a) = numToString (pitch a')" and
    r2: "numToString (yaw a) @ ''-'' @
         numToString (roll a) @ ''-'' @ numToString w @ ''-'' @ numToString h =
         numToString (yaw a') @ ''-'' @
         numToString (roll a') @ ''-'' @ numToString w' @ ''-'' @ numToString h'"
    using ns [of "pitch a" _ "pitch a'"] by simp_all
  from r2 have 3: "numToString (yaw a) = numToString (yaw a')" and
    r3: "numToString (roll a) @ ''-'' @ numToString w @ ''-'' @ numToString h =
         numToString (roll a') @ ''-'' @ numToString w' @ ''-'' @ numToString h'"
    using ns [of "yaw a" _ "yaw a'"] by simp_all
  from r3 have 4: "numToString (roll a) = numToString (roll a')" and
    r4: "numToString w @ ''-'' @ numToString h = numToString w' @ ''-'' @ numToString h'"
    using ns [of "roll a" _ "roll a'"] by simp_all
  from r4 have 5: "numToString w = numToString w'" and 6: "numToString h = numToString h'"
    using ns [of w _ w'] by simp_all
  from 1 2 3 4 5 6 show
    "toFixed 3 t = toFixed 3 t' \<and> pitch a = pitch a' \<and> yaw a = yaw a' \<and> roll a = roll a' \<and>
     w = w' \<and> h = h'"
    by (simp add: numToString_inj)
next
  assume "toFixed 3 t = toFixed 3 t' \<and> pitch a = pitch a' \<and> yaw a = yaw a' \<and>
    roll a = roll a' \<and> w = w' \<and> h = h'"
  then show "key t a w h = key t' a' w' h'"
    by (simp add: key_def)
qed

lemma frameAt_start_Awaiting:
  assumes "frameAt_start p ts a w h = (Awaiting av, p1)"
  shows "\<exists>i nm. ffmpeg p = Some i \<and> name p = Some nm \<and> nm \<noteq> [] \<and> av = args nm ts a w h \<and>
           p1 = p\<lparr>isProcessing := True\<rparr> \<and> \<not> isProcessing p \<and>
           \<not> (lastProcessedKey p = Some (key ts a w h) \<and> lastProcessedResult p \<noteq> None)"
  using assms
  by (auto simp: frameAt_start_def split: option.splits if_splits)

lemma frameAt_start_Returned:
  assumes "frameAt_start p ts a w h = (Returned r, p1)"
  shows "p1 = p \<and> ffmpeg p \<noteq> None \<and> (\<exists>nm. name p = Some nm \<and> nm \<noteq> []) \<and>
         lastProcessedKey p = Some (key ts a w h) \<and> lastProcessedResult p = Some r"
  using assms
  by (auto simp: frameAt_start_def split: option.splits if_splits)

lemma frameAt_start_Threw:
  assumes "frameAt_start p ts a w h = (Threw e, p1)"
  shows "p1 = p"
  using assms
  by (auto simp: frameAt_start_def split: option.splits if_splits)

lemma finish_Inr:
  assumes "finish env p ts a w h tr0 = (Inr r, p', tr)"
  shows "p' = p\<lparr>isProcessing := False, lastProcessedKey := Some (key ts a w h),
                 lastProcessedResult := Some r\<rparr>"
  using assms
  by (auto simp: finish_def Let_def split: prod.splits option.splits sum.splits)

lemma finish_Inl:
  assumes "finish env p ts a w h tr0 = (Inl e, p', tr)"
  shows "p' = p\<lparr>isProcessing := False\<rparr>"
  using assms
  by (auto simp: finish_def Let_def split: prod.splits option.splits sum.splits)

lemma writeFallback_cache:
  assumes "writeFallback env p i tr0 = (r, p', tr)"
  shows "lastProcessedKey p' = lastProcessedKey p \<and>
         lastProcessedResult p' = lastProcessedResult p \<and>
         isProcessing p' = isProcessing p \<and> ffmpeg p' = ffmpeg p"
  using assms
  by (auto simp: writeFallback_def split: option.splits)

lemma mountSource_cache:
  assumes "mountSource env p = (r, p', tr)"
  shows "lastProcessedKey p' = lastProcessedKey p \<and>
         lastProcessedResult p' = lastProcessedResult p \<and>
         isProcessing p' = isProcessing p \<and> ffmpeg p' = ffmpeg p"
  using assms
  by (auto simp: mountSource_def split: option.splits dest: writeFallback_cache)

lemma reinit_cache:
  assumes "reinit env p = (r, p', tr)"
  shows "lastProcessedKey p' = lastProcessedKey p \<and>
         lastProcessedResult p' = lastProcessedResult p \<and>
         isProcessing p' = isProcessing p \<and> ffmpeg p' = Some (newFFmpeg (ffmpeg p))"
  using assms
  by (auto simp: reinit_def Let_def split: option.splits prod.splits dest: mountSource_cache)

lemma frameAt_resume_Inr:
  assumes "frameAt_resume env p av ts a w h = (Inr r, p', tr)"
  shows "p' = p\<lparr>isProcessing := False, lastProcessedKey := Some (key ts a w h),
                 lastProcessedResult := Some r\<rparr>"
  using assms
  by (auto simp: frameAt_resume_def Let_def split: option.splits if_splits prod.splits
      dest: finish_Inr)

lemma frameAt_resume_Inl:
  assumes "frameAt_resume env p av ts a w h = (Inl e, p', tr)"
  shows "lastProcessedKey p' = lastProcessedKey p \<and>
         lastProcessedResult p' = lastProcessedResult p \<and> \<not> isProcessing p'"
  using assms
  by (auto simp: frameAt_resume_def Let_def split: option.splits if_splits prod.splits
      dest: finish_Inl reinit_cache)

lemma str_includes_iff: "str_includes s sub \<longleftrightarrow> (\<exists>pre post. s = pre @ sub @ post)"
proof (induction s)
  case Nil
  then show ?case by auto
next
  case (Cons c cs)
  show ?case
  proof
    assume "str_includes (c # cs) sub"
    then consider "prefix sub (c # cs)" | "str_includes cs sub" by auto
    then show "\<exists>pre post. c # cs = pre @ sub @ post"
    proof cases
      case 1
      then obtain post where "c # cs = sub @ post" by (auto simp: prefix_def)
      then have "c # cs = [] @ sub @ post" by simp
      then show ?thesis by blast
    next
      case 2
      with Cons.IH obtain pre post where "cs = pre @ sub @ post" by auto
      then have "c # cs = (c # pre) @ sub @ post" by simp
      then show ?thesis by blast
    qed
  next
    assume "\<exists>pre post. c # cs = pre @ sub @ post"
    then obtain pre post where e: "c # cs = pre @ sub @ post" by auto
    show "str_includes (c # cs) sub"
    proof (cases pre)
      case Nil
      with e have "prefix sub (c # cs)" by (simp add: prefix_def)
      then show ?thesis by simp
    next
      case (Cons d ds)
      with e have "cs = ds @ sub @ post" by simp
      with Cons.IH have "str_includes cs sub" by blast
      then show ?thesis by simp
    qed
  qed
qed

lemma writeFallback_snap:
  assumes "writeFallback env p i tr0 = (r, p', tr)" and "(op, q) \<in> set tr"
  shows "(op, q) \<in> set tr0 \<or> q = p"
  using assms
  by (auto simp: writeFallback_def split: option.splits)

lemma mountSource_snap:
  assumes "mountSource env p = (r, p', tr)" and "(op, q) \<in> set tr"
  shows "q = p"
  using assms
  by (auto simp: mountSource_def split: option.splits dest!: writeFallback_snap)

lemma reinit_snap:
  assumes "reinit env p = (r, p', tr)" and "(op, q) \<in> set tr"
  shows "q = p \<or> q = p\<lparr>ffmpeg := Some (newFFmpeg (ffmpeg p))\<rparr>"
  using assms
  by (auto simp: reinit_def Let_def split: option.splits prod.splits dest!: mountSource_snap)

lemma readImage_snap:
  assumes "readImage env p f = (b, tr)" and "(op, q) \<in> set tr"
  shows "q = p"
  using assms
  by (auto simp: readImage_def split: option.splits sum.splits file_data.splits)

lemma finish_snap:
  assumes "finish env p ts a w h tr0 = (res, p', tr)" and "(op, q) \<in> set tr"
  shows "(op, q) \<in> set tr0 \<or> q = p"
  using assms
  by (auto simp: finish_def Let_def split: option.splits sum.splits prod.splits
      dest!: readImage_snap)

lemma frameAt_resume_snap:
  assumes "frameAt_resume env p av ts a w h = (res, p', tr)" and "(op, q) \<in> set tr"
  shows "q = p \<or> q = p\<lparr>ffmpeg := Some (newFFmpeg (ffmpeg p))\<rparr>"
  using assms
  by (auto simp: frameAt_resume_def Let_def split: option.splits if_splits prod.splits
      dest!: finish_snap reinit_snap)

lemma frameAt_resume_head:
  assumes "ffmpeg p = Some i"
  shows "\<exists>res p' tr. frameAt_resume env p av ts a w h = (res, p', (Exec i av, p) # tr)"
  using assms
  by (auto simp: frameAt_resume_def finish_def Let_def
      split: option.splits if_splits prod.splits sum.splits)


section \<open>Facts about projection and export\<close>

lemma bilinearSample_cong:
  assumes a: "u - of_int \<lfloor>u\<rfloor> = u' - of_int \<lfloor>u'\<rfloor>"
    and b: "max 0 (min 1 v) = max 0 (min 1 v')"
  shows "bilinearSample img u v out ofs = bilinearSample img u' v' out ofs"
  unfolding bilinearSample_def a b ..

lemma rot_facts:
  "mat_vec (rot_vertical t) (0, 1, 0) = (0, 1, 0) \<and>
   mat_vec (rot_horizontal t) (1, 0, 0) = (1, 0, 0) \<and>
   mat_vec (rot_optical t) (0, 0, 1) = (0, 0, 1)"
  by (simp add: mat_vec_def dot_def rot_optical_def rot_horizontal_def rot_vertical_def)

lemma rot_norm:
  "dot (rotateVec vx vy vz yawDeg pitchDeg rollDeg) (rotateVec vx vy vz yawDeg pitchDeg rollDeg) =
   dot (vx, vy, vz) (vx, vy, vz)"
proof -
  have r: "(a * c - b * s) * (a * c - b * s) + (a * s + b * c) * (a * s + b * c) = a * a + b * b"
    if "s * s + c * c = 1" for a b c s :: real
  proof -
    have "(a * c - b * s) * (a * c - b * s) + (a * s + b * c) * (a * s + b * c) =
          (a * a + b * b) * (s * s + c * c)"
      by (simp add: algebra_simps)
    with that show ?thesis by simp
  qed
  have sc: "sin t * sin t + cos t * cos t = 1" for t :: real
    using sin_cos_squared_add [of t] by (simp add: power2_eq_square)
  define yaw where "yaw = toRad yawDeg"
  define pitch where "pitch = toRad pitchDeg"
  define roll where "roll = toRad rollDeg"
  define x where "x = vx * cos yaw + vz * sin yaw"
  define z where "z = - vx * sin yaw + vz * cos yaw"
  define y2 where "y2 = vy * cos pitch - z * sin pitch"
  define z2 where "z2 = vy * sin pitch + z * cos pitch"
  have 1: "x * x + z * z = vx * vx + vz * vz"
    using r [OF sc [of yaw], of vz "- vx"] by (simp add: x_def z_def algebra_simps)
  have 2: "y2 * y2 + z2 * z2 = vy * vy + z * z"
    using r [OF sc [of pitch], of vy z] by (simp add: y2_def z2_def algebra_simps)
  have 3: "(x * cos roll - y2 * sin roll) * (x * cos roll - y2 * sin roll) +
           (x * sin roll + y2 * cos roll) * (x * sin roll + y2 * cos roll) = x * x + y2 * y2"
    using r [OF sc [of roll], of x y2] by simp
  have "dot (rotateVec vx vy vz yawDeg pitchDeg rollDeg) (rotateVec vx vy vz yawDeg pitchDeg rollDeg) =
        (x * cos roll - y2 * sin roll) * (x * cos roll - y2 * sin roll) +
        (x * sin roll + y2 * cos roll) * (x * sin roll + y2 * cos roll) + z2 * z2"
    by (simp add: rotateVec_def dot_def Let_def x_def z_def y2_def z2_def yaw_def pitch_def roll_def)
  also have "\<dots> = x * x + y2 * y2 + z2 * z2"
    using 3 by simp
  also have "\<dots> = vx * vx + vy * vy + vz * vz"
    using 1 2 by simp
  finally show ?thesis
    by (simp add: dot_def)
qed

lemma expo_bounds:
  assumes "0 < x"
  shows "2 powi (expo x) \<le> x \<and> x < 2 powi (expo x + 1)"
proof (cases "1 \<le> x")
  case True
  define n where "n = \<lfloor>x\<rfloor>"
  have n: "0 < n" using True by (simp add: n_def)
  from bitlen_bounds [OF n] have lo: "2 ^ nat (bitlen n - 1) \<le> n" and hi: "n < 2 ^ nat (bitlen n)"
    by simp_all
  have b: "1 \<le> bitlen n"
    using n bitlen_eq_zero_iff [of n] bitlen_nonneg [of n] by linarith
  have e: "expo x = bitlen n - 1"
    using True by (simp add: expo_def n_def)
  have "2 powi (expo x) = (2::real) ^ nat (bitlen n - 1)"
    using b by (simp add: e power_int_def)
  also have "\<dots> = of_int (2 ^ nat (bitlen n - 1))" by simp
  also have "\<dots> \<le> of_int n" using lo by (simp only: of_int_le_iff)
  also have "\<dots> \<le> x" by (simp add: n_def)
  finally have 1: "2 powi (expo x) \<le> x" .
  have "n + 1 \<le> 2 ^ nat (bitlen n)" using hi by simp
  then have "of_int (n + 1) \<le> (of_int (2 ^ nat (bitlen n)) :: real)"
    by (simp only: of_int_le_iff)
  moreover have "x < of_int (n + 1)" by (simp add: n_def)
  ultimately have "x < (2::real) ^ nat (bitlen n)" by simp
  moreover have "2 powi (expo x + 1) = (2::real) ^ nat (bitlen n)"
    using b by (simp add: e power_int_def)
  ultimately have 2: "x < 2 powi (expo x + 1)" by simp
  from 1 2 show ?thesis by simp
next
  case False
  define y where "y = 1 / x"
  define c where "c = \<lceil>y\<rceil>"
  have y: "1 < y" using False assms by (simp add: y_def)
  have c: "1 < c" using y by (simp add: c_def less_ceiling_iff)
  then have c1: "0 < c - 1" by simp
  define b where "b = bitlen (c - 1)"
  from bitlen_bounds [OF c1] have lo: "2 ^ nat (b - 1) \<le> c - 1" and hi: "c - 1 < 2 ^ nat b"
    by (simp_all add: b_def)
  have b1: "1 \<le> b"
    unfolding b_def using c1 bitlen_eq_zero_iff [of "c - 1"] bitlen_nonneg [of "c - 1"] by linarith
  have e: "expo x = - b"
    using False by (simp add: expo_def b_def c_def y_def)
  have cb: "c \<le> 2 ^ nat b" using hi by simp
  have "y \<le> of_int c" by (simp add: c_def)
  also have "\<dots> \<le> of_int (2 ^ nat b)" using cb by (simp only: of_int_le_iff)
  also have "\<dots> = 2 ^ nat b" by simp
  finally have yb: "y \<le> 2 ^ nat b" .
  have "(2::real) ^ nat (b - 1) = of_int (2 ^ nat (b - 1))" by simp
  also have "\<dots> \<le> of_int (c - 1)" using lo by (simp only: of_int_le_iff)
  also have "\<dots> < y" unfolding c_def by linarith
  finally have yl: "2 ^ nat (b - 1) < y" .
  have x: "x = 1 / y" using assms by (simp add: y_def)
  have p1: "2 powi (expo x) = 1 / (2::real) ^ nat b"
    using b1 by (simp add: e power_int_def power_inverse inverse_eq_divide power_one_over)
  have p2: "2 powi (expo x + 1) = 1 / (2::real) ^ nat (b - 1)"
  proof (cases "b = 1")
    case True
    then show ?thesis by (simp add: e)
  next
    case False
    with b1 have "expo x + 1 < 0" "nat (- (expo x + 1)) = nat (b - 1)" by (simp_all add: e)
    then show ?thesis by (simp add: power_int_def power_inverse inverse_eq_divide power_one_over)
  qed
  have "1 / 2 ^ nat b \<le> 1 / y"
    using yb y by (simp add: frac_le)
  then have 1: "2 powi (expo x) \<le> x"
    unfolding p1 by (subst x)
  have "1 / y < 1 / 2 ^ nat (b - 1)"
    using yl by (simp add: frac_less2)
  then have 2: "x < 2 powi (expo x + 1)"
    unfolding p2 by (subst x)
  from 1 2 show ?thesis by simp
qed

lemma round_even_int: "round_even (of_int z) = z"
  by (simp add: round_even_def)

lemma round64_exact:
  assumes x: "x = of_int m * 2 powi p" and m: "\<bar>m\<bar> < 2 ^ 53" and p: "- 1074 \<le> p"
  shows "round64 x = x"
proof (cases "x = 0")
  case True
  then show ?thesis by (simp add: round64_def)
next
  case False
  define k where "k = max (expo \<bar>x\<bar>) (- 1022) - 52"
  have pos: "0 < \<bar>x\<bar>" using False by simp
  have "\<bar>x\<bar> = of_int \<bar>m\<bar> * 2 powi p" by (simp add: x abs_mult)
  also have "\<dots> < 2 ^ 53 * 2 powi p"
  proof -
    have "(of_int \<bar>m\<bar> :: real) < of_int (2 ^ 53)" using m by (simp only: of_int_less_iff)
    then show ?thesis by (simp add: mult_strict_right_mono)
  qed
  also have "\<dots> = 2 powi (53 + p)"
    by (simp add: power_int_add)
  finally have up: "\<bar>x\<bar> < 2 powi (53 + p)" .
  from expo_bounds [OF pos] have "2 powi (expo \<bar>x\<bar>) \<le> \<bar>x\<bar>" by simp
  with up have "(2::real) powi (expo \<bar>x\<bar>) < 2 powi (53 + p)" by simp
  then have "expo \<bar>x\<bar> < 53 + p"
    by (smt (verit) power_int_increasing)
  with p have kp: "k \<le> p" by (simp add: k_def)
  have u: "ulp x = 2 powi k" by (simp add: ulp_def k_def)
  have "x / 2 powi k = of_int m * (2 powi p / 2 powi k)" by (simp add: x)
  also have "2 powi p / (2::real) powi k = 2 powi (p - k)" by (simp add: power_int_diff)
  also have "\<dots> = 2 ^ nat (p - k)" using kp by (simp add: power_int_def)
  finally have q: "x / 2 powi k = of_int (m * 2 ^ nat (p - k))" by simp
  have "round64 x = of_int (round_even (x / ulp x)) * ulp x"
    using False by (simp add: round64_def)
  also have "\<dots> = of_int (m * 2 ^ nat (p - k)) * 2 powi k"
    unfolding u q round_even_int ..
  also have "\<dots> = of_int m * (2 ^ nat (p - k) * 2 powi k)" by simp
  also have "(2::real) ^ nat (p - k) * 2 powi k = 2 powi (p - k) * 2 powi k"
    using kp by (simp add: power_int_def)
  also have "\<dots> = 2 powi p" by (simp flip: power_int_add)
  finally show ?thesis by (simp add: x)
qed

lemma times_from_returns:
  assumes "\<forall>k<n. ((\<lambda>t. round64 (t + s)) ^^ k) t \<le> bound d"
    and "bound d < ((\<lambda>t. round64 (t + s)) ^^ n) t"
  shows "times_from s d t = Some (map (\<lambda>k. min (((\<lambda>t. round64 (t + s)) ^^ k) t) d) [0..<n])"
  using assms
proof (induction n arbitrary: t)
  case 0
  then show ?case by (subst times_from.simps) simp
next
  case (Suc n)
  let ?f = "\<lambda>t. round64 (t + s)"
  from Suc.prems(1) have t: "t \<le> bound d" by force
  have a: "\<forall>k<n. (?f ^^ k) (?f t) \<le> bound d"
  proof (intro allI impI)
    fix k assume "k < n"
    then have "(?f ^^ Suc k) t \<le> bound d" using Suc.prems(1) by (meson Suc_less_eq)
    then show "(?f ^^ k) (?f t) \<le> bound d" by (simp only: funpow_Suc_right o_apply)
  qed
  have b: "bound d < (?f ^^ n) (?f t)"
    using Suc.prems(2) by (simp only: funpow_Suc_right o_apply)
  from Suc.IH [OF a b]
  have "times_from s d t =
      Some (min t d # map (\<lambda>k. min ((?f ^^ k) (?f t)) d) [0..<n])"
    using t by (subst times_from.simps) simp
  also have "min t d # map (\<lambda>k. min ((?f ^^ k) (?f t)) d) [0..<n] =
      map (\<lambda>k. min ((?f ^^ k) t) d) [0..<Suc n]"
    unfolding map_upt_Suc by (simp only: funpow_Suc_right o_apply funpow_0)
  finally show ?case .
qed

lemma running_sum_funpow: "running_sum s k = ((\<lambda>t. round64 (t + s)) ^^ k) 0"
  by (induction k) simp_all

lemma times_from_Some:
  assumes "times_from s d t = Some ts"
  shows "\<exists>n. (\<forall>k<n. ((\<lambda>t. round64 (t + s)) ^^ k) t \<le> bound d) \<and>
             bound d < ((\<lambda>t. round64 (t + s)) ^^ n) t \<and>
             ts = map (\<lambda>k. min (((\<lambda>t. round64 (t + s)) ^^ k) t) d) [0..<n]"
proof (rule times_from.raw_induct [of
      "\<lambda>s d t ts. \<exists>n. (\<forall>k<n. ((\<lambda>t. round64 (t + s)) ^^ k) t \<le> bound d) \<and>
             bound d < ((\<lambda>t. round64 (t + s)) ^^ n) t \<and>
             ts = map (\<lambda>k. min (((\<lambda>t. round64 (t + s)) ^^ k) t) d) [0..<n]", OF _ assms],
    goal_cases)
  case (1 times_from' s d t ts)
  let ?f = "\<lambda>t. round64 (t + s)"
  show ?case
  proof (cases "t \<le> bound d")
    case False
    with 1(2) have "ts = []" by simp
    with False have "(\<forall>k<0. (?f ^^ k) t \<le> bound d) \<and> bound d < (?f ^^ 0) t \<and>
        ts = map (\<lambda>k. min ((?f ^^ k) t) d) [0..<0]"
      by simp
    then show ?thesis by blast
  next
    case True
    with 1(2) obtain rest where r: "times_from' s d (?f t) = Some rest" and ts: "ts = min t d # rest"
      by (auto simp: bind_eq_Some_conv)
    from 1(1) [OF r] obtain n where
      a: "\<forall>k<n. (?f ^^ k) (?f t) \<le> bound d" and b: "bound d < (?f ^^ n) (?f t)"
      and c: "rest = map (\<lambda>k. min ((?f ^^ k) (?f t)) d) [0..<n]"
      by blast
    have a': "\<forall>k<Suc n. (?f ^^ k) t \<le> bound d"
    proof (intro allI impI)
      fix k assume k: "k < Suc n"
      show "(?f ^^ k) t \<le> bound d"
      proof (cases k)
        case 0
        with True show ?thesis by simp
      next
        case (Suc i)
        with k a have "(?f ^^ i) (?f t) \<le> bound d" by simp
        then show ?thesis unfolding Suc by (simp only: funpow_Suc_right o_apply)
      qed
    qed
    have b': "bound d < (?f ^^ Suc n) t"
      using b by (simp only: funpow_Suc_right o_apply)
    have c': "ts = map (\<lambda>k. min ((?f ^^ k) t) d) [0..<Suc n]"
      unfolding ts c map_upt_Suc by (simp only: funpow_Suc_right o_apply funpow_0)
    from a' b' c' show ?thesis by blast
  qed
qed

lemma times_from_le:
  assumes "times_from s d t = Some ts" and "x \<in> set ts"
  shows "x \<le> d"
proof -
  from times_from_Some [OF assms(1)] obtain n where
    "ts = map (\<lambda>k. min (((\<lambda>t. round64 (t + s)) ^^ k) t) d) [0..<n]"
    by blast
  with assms(2) show ?thesis by auto
qed

lemma running_sum_exact:
  assumes "j \<le> 1074" and "k < 2 ^ 53"
  shows "running_sum (1 / 2 ^ j) k = real k / 2 ^ j"
  using assms(2)
proof (induction k)
  case 0
  show ?case by simp
next
  case (Suc k)
  then have ih: "running_sum (1 / 2 ^ j) k = real k / 2 ^ j" by simp
  have e: "real k / 2 ^ j + 1 / 2 ^ j = of_int (int (Suc k)) * 2 powi (- int j)"
    by (simp add: power_int_minus field_simps)
  have "int (Suc k) < 2 ^ 53"
    using Suc.prems by (metis of_nat_less_numeral_power_cancel_iff)
  then have m: "\<bar>int (Suc k)\<bar> < 2 ^ 53" by simp
  have p: "- 1074 \<le> - int j" using assms(1) by simp
  have "running_sum (1 / 2 ^ j) (Suc k) = round64 (of_int (int (Suc k)) * 2 powi (- int j))"
    by (simp only: running_sum.simps ih e)
  also have "\<dots> = of_int (int (Suc k)) * 2 powi (- int j)"
    using m p by (rule round64_exact [OF refl])
  also have "\<dots> = real (Suc k) / 2 ^ j"
    by (simp add: power_int_minus field_simps)
  finally show ?case .
qed

lemma step_exact:
  assumes "max 1 sps = 2 ^ j" and "j \<le> 1074"
  shows "round64 (1 / max 1 sps) = 1 / 2 ^ j"
proof -
  have e: "1 / (2::real) ^ j = of_int 1 * 2 powi (- int j)"
    by (simp add: power_int_minus field_simps)
  have "round64 (of_int 1 * 2 powi (- int j)) = of_int 1 * 2 powi (- int j)"
    by (rule round64_exact [OF refl]) (use assms(2) in simp_all)
  then show ?thesis
    unfolding assms(1) e .
qed

lemma export_times_exact:
  assumes sps: "max 1 sps = 2 ^ j" and j: "j \<le> 1074"
    and b: "0 \<le> bound d" and n: "nat \<lfloor>bound d * 2 ^ j\<rfloor> + 1 < 2 ^ 53"
  shows "export_times sps d =
           Some (map (\<lambda>k. min (real k / 2 ^ j) d) [0..<nat \<lfloor>bound d * 2 ^ j\<rfloor> + 1])"
proof -
  define N where "N = nat \<lfloor>bound d * 2 ^ j\<rfloor>"
  let ?s = "1 / (2::real) ^ j"
  let ?f = "\<lambda>t. round64 (t + ?s)"
  have fl: "0 \<le> \<lfloor>bound d * 2 ^ j\<rfloor>" using b by simp
  have rs: "(?f ^^ k) 0 = real k / 2 ^ j" if "k \<le> N + 1" for k
  proof -
    from that n have "k < 2 ^ 53" by (simp add: N_def)
    from running_sum_exact [OF j this] show ?thesis
      by (simp only: running_sum_funpow)
  qed
  have 1: "\<forall>k<N + 1. (?f ^^ k) 0 \<le> bound d"
  proof (intro allI impI)
    fix k assume k: "k < N + 1"
    with fl have "int k \<le> \<lfloor>bound d * 2 ^ j\<rfloor>" unfolding N_def by linarith
    then have "real k \<le> bound d * 2 ^ j" by (simp add: le_floor_iff)
    then have "real k / 2 ^ j \<le> bound d" by (simp add: field_simps)
    with k show "(?f ^^ k) 0 \<le> bound d" by (simp add: rs)
  qed
  have "bound d * 2 ^ j < of_int (\<lfloor>bound d * 2 ^ j\<rfloor> + 1)" by linarith
  also have "\<dots> = real (N + 1)" using fl by (simp add: N_def)
  finally have "bound d < real (N + 1) / 2 ^ j" by (simp add: field_simps)
  moreover have "(?f ^^ (N + 1)) 0 = real (N + 1) / 2 ^ j" by (rule rs) simp
  ultimately have 2: "bound d < (?f ^^ (N + 1)) 0" by (simp only:)
  have "times_from ?s d 0 = Some (map (\<lambda>k. min ((?f ^^ k) 0) d) [0..<N + 1])"
    using 1 2 by (rule times_from_returns)
  also have "map (\<lambda>k. min ((?f ^^ k) 0) d) [0..<N + 1] = map (\<lambda>k. min (real k / 2 ^ j) d) [0..<N + 1]"
  proof (rule map_cong [OF refl])
    fix k assume "k \<in> set [0..<N + 1]"
    then have "k \<le> N + 1" by auto
    then show "min ((?f ^^ k) 0) d = min (real k / 2 ^ j) d" by (simp only: rs)
  qed
  finally show ?thesis
    by (simp add: export_times_def step_def step_exact [OF sps j] N_def)
qed

lemma sanitize_allowed: "\<forall>c \<in> set (sanitize s). allowed c"
proof (induction s rule: sanitize.induct)
  case 1
  show ?case by simp
next
  case (2 d ds)
  show ?case
  proof (cases "allowed d")
    case True
    with "2.IH"(1) show ?thesis by simp
  next
    case False
    have u: "allowed CHR ''_''" by code_simp
    have eq: "sanitize (d # ds) = CHR ''_'' # sanitize (dropWhile (\<lambda>d. \<not> allowed d) ds)"
      using False by simp
    have ih: "\<forall>c \<in> set (sanitize (dropWhile (\<lambda>d. \<not> allowed d) ds)). allowed c"
      using False by (rule "2.IH"(2))
    show ?thesis
      unfolding eq using u ih by (metis set_ConsD)
  qed
qed

lemma sanitize_keep: "\<forall>c \<in> set xs. allowed c \<Longrightarrow> sanitize (xs @ ys) = xs @ sanitize ys"
  by (induction xs) auto

lemma sanitize_run:
  assumes "r \<noteq> []" and "\<forall>c \<in> set r. \<not> allowed c" and "rest = [] \<or> allowed (hd rest)"
  shows "sanitize (r @ rest) = CHR ''_'' # sanitize rest"
proof -
  from assms(1) obtain c cs where r: "r = c # cs" by (cases r) auto
  with assms(2) have c: "\<not> allowed c" and cs: "\<forall>x \<in> set cs. \<not> allowed x" by auto
  have "dropWhile (\<lambda>d. \<not> allowed d) (cs @ rest) = dropWhile (\<lambda>d. \<not> allowed d) rest"
    using cs by (simp add: dropWhile_append2)
  also have "\<dots> = rest"
    using assms(3) by (cases rest) auto
  finally show ?thesis
    using c by (simp add: r)
qed

lemma sanitize_empty: "sanitize s = [] \<longleftrightarrow> s = []"
  by (cases s) auto

lemma safeLabel_eq:
  "safeLabel cam =
     (if cam_label cam = [] then ''Angle_'' @ numToString (cam_id cam) else sanitize (cam_label cam))"
  by (simp add: safeLabel_def Let_def sanitize_empty)

lemma decimal_small: "n < 10 \<Longrightarrow> decimal n = [digit_char n]"
  by (simp add: decimal.simps [of n])

lemma decimal_big: "10 \<le> n \<Longrightarrow> decimal n = decimal (n div 10) @ [digit_char (n mod 10)]"
  by (simp add: decimal.simps [of n])

lemma fixed_digits_2:
  "fixed_digits 2 n =
     decimal (n div 100) @ ''.'' @ [digit_char (n div 10 mod 10), digit_char (n mod 10)]"
proof -
  have z: "digit_char 0 = CHR ''0''"
    by (simp add: digit_char_def)
  have two: "replicate (2 + 1 - k) c = replicate (3 - k) c" for k and c :: char
    by simp
  have r2: "replicate (3 - 1) c = [c, c]" and r1: "replicate (3 - 2) c = [c]" for c :: char
    by (simp_all add: numeral_2_eq_2 numeral_3_eq_3)
  consider "n < 10" | "10 \<le> n" "n < 100" | "100 \<le> n" by linarith
  then show ?thesis
  proof cases
    case 1
    then have d: "decimal n = [digit_char n]" and h: "decimal 0 = ''0''"
      by (simp_all add: decimal_small z)
    have "fixed_digits 2 n = take (3 - 2) (''00'' @ decimal n) @ ''.'' @ drop (3 - 2) (''00'' @ decimal n)"
      unfolding fixed_digits_def Let_def two by (simp add: d r2)
    also have "\<dots> = ''0'' @ ''.'' @ [CHR ''0'', digit_char n]"
      by (simp add: d)
    finally show ?thesis
      using 1 by (simp add: h z)
  next
    case 2
    then have "n div 10 < 10" by simp
    with 2 have d: "decimal n = [digit_char (n div 10), digit_char (n mod 10)]"
      and h: "decimal 0 = ''0''"
      by (simp_all add: decimal_big decimal_small z)
    have "fixed_digits 2 n = take (3 - 2) (''0'' @ decimal n) @ ''.'' @ drop (3 - 2) (''0'' @ decimal n)"
      unfolding fixed_digits_def Let_def two by (simp add: d r1)
    also have "\<dots> = ''0'' @ ''.'' @ [digit_char (n div 10), digit_char (n mod 10)]"
      by (simp add: d)
    finally show ?thesis
      using 2 by (simp add: h)
  next
    case 3
    then have "10 \<le> n" "10 \<le> n div 10" by simp_all
    moreover have "n div 10 div 10 = n div 100" by simp
    ultimately have d: "decimal n =
        decimal (n div 100) @ [digit_char (n div 10 mod 10), digit_char (n mod 10)]"
      by (simp add: decimal_big [of n] decimal_big [of "n div 10"])
    have l: "length (decimal n) = length (decimal (n div 100)) + 2"
      by (simp add: d)
    then have "\<not> length (decimal n) \<le> 2"
      using decimal_nonempty [of "n div 100"] by (cases "decimal (n div 100)") simp_all
    then have "fixed_digits 2 n =
        take (length (decimal n) - 2) (decimal n) @ ''.'' @ drop (length (decimal n) - 2) (decimal n)"
      by (simp add: fixed_digits_def Let_def)
    also have "\<dots> = decimal (n div 100) @ ''.'' @ [digit_char (n div 10 mod 10), digit_char (n mod 10)]"
      unfolding l by (simp add: d)
    finally show ?thesis .
  qed
qed

lemma digit_char_not_dot: "digit_char (n mod 10) \<noteq> CHR ''.''"
  using digit_char_is_digit [of "n mod 10"] is_digit_not_dot by simp

lemma tsStr_nonneg:
  assumes "0 \<le> ts"
  shows "tsStr ts = decimal (nearest 2 ts div 100) @ ''_'' @
           [digit_char (nearest 2 ts div 10 mod 10), digit_char (nearest 2 ts mod 10)]"
proof -
  have nd: "map (\<lambda>c. if c = CHR ''.'' then CHR ''_'' else c) (decimal k) = decimal k" for k
    using decimal_no_dot [of k] by (auto intro!: map_idI)
  from assms have "toFixed 2 ts = fixed_digits 2 (nearest 2 ts)"
    by (simp add: toFixed_def)
  then show ?thesis
    by (simp add: tsStr_def fixed_digits_2 nd digit_char_not_dot)
qed


section \<open>Single-flight guard\<close>

text \<open>
  Claim C1, as the code has it. While a call of \<open>frameAt\<close> is in flight (it passed the
  guards, set the busy flag and is suspended at any of its awaited operations), a second
  call on the state \<open>q\<close> visible at that moment ends at once and leaves the state as it
  is: it throws the busy error \<open>'FFmpeg is busy'\<close>, unless its key is the key of the
  cached frame, in which case it returns that frame, because the cache is consulted before
  the busy flag. It never reaches the backend and is never queued. (The states \<open>q\<close> are
  those the first call itself goes through; \<open>close\<close> and \<open>load\<close> are not considered.)
\<close>

theorem busy_guard_rejects_second_call:
  assumes first: "frameAt_start p ts a w h = (Awaiting av, p1)"
    and run: "frameAt_resume env p1 av ts a w h = (res, p', tr)"
    and q: "(op, q) \<in> set tr"
  shows "frameAt_start q ts2 a2 w2 h2 =
           (if lastProcessedKey q = Some (key ts2 a2 w2 h2) \<and> lastProcessedResult q \<noteq> None
            then (Returned (the (lastProcessedResult q)), q)
            else (Threw Busy, q))"
proof -
  from frameAt_start_Awaiting [OF first]
  obtain i nm where l: "ffmpeg p = Some i" "name p = Some nm" "nm \<noteq> []"
    "p1 = p\<lparr>isProcessing := True\<rparr>"
    by auto
  from frameAt_resume_snap [OF run q]
  have "q = p1 \<or> q = p1\<lparr>ffmpeg := Some (newFFmpeg (ffmpeg p1))\<rparr>"
    by auto
  with l have "isProcessing q" "ffmpeg q \<noteq> None" "name q = Some nm"
    by auto
  with l(3) show ?thesis
    by (auto simp: frameAt_start_def split: option.splits)
qed

text \<open>
  A first call for \<open>t = 2\<close> is in flight on a provider whose cache holds the frame for
  \<open>t = 1\<close>; a second call for \<open>t = 3\<close> is rejected as busy.
\<close>

theorem busy_guard_rejects_second_call_witness:
  "frameAt_start provider_cached 2 angle0 240 135 =
     (Awaiting (args ''/mnt/clip.insv'' 2 angle0 240 135),
      provider_cached\<lparr>isProcessing := True\<rparr>) \<and>
   (Exec 0 (args ''/mnt/clip.insv'' 2 angle0 240 135), provider_cached\<lparr>isProcessing := True\<rparr>)
     \<in> set (snd (snd (frameAt_resume env_ok (provider_cached\<lparr>isProcessing := True\<rparr>)
                (args ''/mnt/clip.insv'' 2 angle0 240 135) 2 angle0 240 135))) \<and>
   frameAt_start (provider_cached\<lparr>isProcessing := True\<rparr>) 3 angle0 240 135 =
     (Threw Busy, provider_cached\<lparr>isProcessing := True\<rparr>)"
proof -
  let ?p1 = "provider_cached\<lparr>isProcessing := True\<rparr>"
  let ?av = "args ''/mnt/clip.insv'' 2 angle0 240 135"
  let ?run = "frameAt_resume env_ok ?p1 ?av 2 angle0 240 135"
  have first: "frameAt_start provider_cached 2 angle0 240 135 = (Awaiting ?av, ?p1)"
    by code_simp
  have run: "?run = (fst ?run, fst (snd ?run), snd (snd ?run))"
    by simp
  have q: "(Exec 0 ?av, ?p1) \<in> set (snd (snd ?run))"
    by code_simp
  have miss: "\<not> (lastProcessedKey ?p1 = Some (key 3 angle0 240 135) \<and>
                lastProcessedResult ?p1 \<noteq> None)"
    by code_simp
  from busy_guard_rejects_second_call [OF first run q, of 3 angle0 240 135] miss
  have "frameAt_start ?p1 3 angle0 240 135 = (Threw Busy, ?p1)"
    by (simp only: if_False)
  with first q show ?thesis
    by (simp only: simp_thms)
qed

text \<open>
  Claim C1 as stated fails. With the frame for \<open>t = 1\<close> cached, a call for \<open>t = 2\<close> is
  started and in flight; a second call for \<open>t = 1\<close> does not throw the busy error but
  returns the cached frame.
\<close>

theorem cached_key_bypasses_busy_guard:
  "frameAt_start provider_cached 2 angle0 240 135 =
     (Awaiting (args ''/mnt/clip.insv'' 2 angle0 240 135),
      provider_cached\<lparr>isProcessing := True\<rparr>) \<and>
   frameAt_start (provider_cached\<lparr>isProcessing := True\<rparr>) 1 angle0 240 135 =
     (Returned frame1, provider_cached\<lparr>isProcessing := True\<rparr>) \<and>
   frameAt_start (provider_cached\<lparr>isProcessing := True\<rparr>) 1 angle0 240 135 \<noteq>
     (Threw Busy, provider_cached\<lparr>isProcessing := True\<rparr>)"
  by code_simp


section \<open>Single-slot cache\<close>

text \<open>
  Claim C2. When a call of \<open>frameAt\<close> has returned a frame, a second call with the same
  arguments on the state the first one left returns the same frame, leaves the state
  unchanged and awaits no backend operation (its trace is empty), whatever the backend
  would have done.
\<close>

theorem frameAt_idempotent:
  assumes "frameAt env p ts a w h = (Inr r, p', tr)"
  shows "frameAt env' p' ts a w h = (Inr r, p', [])"
proof (cases "frameAt_start p ts a w h")
  case (Pair s p1)
  show ?thesis
  proof (cases s)
    case (Returned r')
    with Pair assms have "r' = r" "p1 = p'"
      by (simp_all add: frameAt_def)
    with Pair Returned frameAt_start_Returned [of p ts a w h r p1] show ?thesis
      by (simp add: frameAt_def)
  next
    case (Threw e)
    with Pair assms show ?thesis
      by (simp add: frameAt_def)
  next
    case (Awaiting av)
    with Pair assms have res: "frameAt_resume env p1 av ts a w h = (Inr r, p', tr)"
      by (simp add: frameAt_def)
    from Pair Awaiting frameAt_start_Awaiting [of p ts a w h av p1]
    obtain i nm where l: "ffmpeg p = Some i" "name p = Some nm" "nm \<noteq> []"
      "p1 = p\<lparr>isProcessing := True\<rparr>"
      by auto
    from frameAt_resume_Inr [OF res] l
    have "frameAt_start p' ts a w h = (Returned r, p')"
      by (simp add: frameAt_start_def)
    then show ?thesis
      by (simp add: frameAt_def)
  qed
qed

theorem frameAt_idempotent_witness:
  "fst (frameAt env_ok provider_ready 1 angle0 240 135) = Inr frame1 \<and>
   fst (snd (frameAt env_ok provider_ready 1 angle0 240 135)) = provider_cached \<and>
   frameAt env_reload_fails provider_cached 1 angle0 240 135 = (Inr frame1, provider_cached, [])"
proof -
  let ?run = "frameAt env_ok provider_ready 1 angle0 240 135"
  have r: "fst ?run = Inr frame1"
    by code_simp
  have s: "fst (snd ?run) = provider_cached"
    by code_simp
  have "?run = (fst ?run, fst (snd ?run), snd (snd ?run))"
    by simp
  then have h: "?run = (Inr frame1, provider_cached, snd (snd ?run))"
    by (simp only: r s)
  from frameAt_idempotent [OF h, of env_reload_fails] r s show ?thesis
    by (simp only: simp_thms)
qed

text \<open>
  Claim C4. When a call of \<open>frameAt\<close> ends with an error, whichever it is, the cache
  fields \<open>lastProcessedKey\<close> and \<open>lastProcessedResult\<close> are what they were before.
\<close>

theorem failed_frameAt_keeps_cache:
  assumes "frameAt env p ts a w h = (Inl e, p', tr)"
  shows "lastProcessedKey p' = lastProcessedKey p \<and>
         lastProcessedResult p' = lastProcessedResult p"
proof (cases "frameAt_start p ts a w h")
  case (Pair s p1)
  show ?thesis
  proof (cases s)
    case (Returned r')
    with Pair assms show ?thesis
      by (simp add: frameAt_def)
  next
    case (Threw e')
    with Pair assms frameAt_start_Threw [of p ts a w h e' p1] show ?thesis
      by (simp add: frameAt_def)
  next
    case (Awaiting av)
    with Pair assms have res: "frameAt_resume env p1 av ts a w h = (Inl e, p', tr)"
      by (simp add: frameAt_def)
    from Pair Awaiting frameAt_start_Awaiting [of p ts a w h av p1]
    have "p1 = p\<lparr>isProcessing := True\<rparr>"
      by auto
    with frameAt_resume_Inl [OF res] show ?thesis
      by simp
  qed
qed

theorem failed_frameAt_keeps_cache_witness:
  "fst (frameAt env_exec_rejected provider_cached 2 angle0 240 135) = Inl ExtractFailed \<and>
   lastProcessedKey (fst (snd (frameAt env_exec_rejected provider_cached 2 angle0 240 135))) =
     Some ''1.000-0-0-0-240-135'' \<and>
   lastProcessedResult (fst (snd (frameAt env_exec_rejected provider_cached 2 angle0 240 135))) =
     Some frame1"
proof -
  let ?run = "frameAt env_exec_rejected provider_cached 2 angle0 240 135"
  have r: "fst ?run = Inl ExtractFailed"
    by code_simp
  have "?run = (fst ?run, fst (snd ?run), snd (snd ?run))"
    by simp
  then have h: "?run = (Inl ExtractFailed, fst (snd ?run), snd (snd ?run))"
    by (simp only: r)
  have c: "lastProcessedKey provider_cached = Some ''1.000-0-0-0-240-135''"
    "lastProcessedResult provider_cached = Some frame1"
    by (simp_all add: provider_cached_def)
  from failed_frameAt_keeps_cache [OF h] r c show ?thesis
    by (simp only: simp_thms)
qed

text \<open>
  Claim C5. The cache key is built from the timestamp rounded to the millisecond and from
  pitch, yaw, roll, width and height, and it determines each of them. So when the cache
  holds the frame for \<open>(t, a, w, h)\<close> and an idle, loaded provider is asked for arguments
  that differ in the rounded timestamp or in any of the other five, the cached frame is not
  returned: the call sets the busy flag and runs the backend, \<open>exec\<close> being the first
  operation it awaits. Two timestamps give the same key exactly when they have the same
  sign and round to the same millisecond.
\<close>

theorem cache_key_sensitive:
  assumes loaded: "ffmpeg p = Some i" "name p = Some nm" "nm \<noteq> []"
    and idle: "\<not> isProcessing p"
    and cached: "lastProcessedKey p = Some (key t a w h)"
    and differs: "nearest 3 \<bar>t'\<bar> \<noteq> nearest 3 \<bar>t\<bar> \<or> pitch a' \<noteq> pitch a \<or> yaw a' \<noteq> yaw a \<or>
                  roll a' \<noteq> roll a \<or> w' \<noteq> w \<or> h' \<noteq> h"
  shows "frameAt_start p t' a' w' h' =
           (Awaiting (args nm t' a' w' h'), p\<lparr>isProcessing := True\<rparr>) \<and>
         (\<exists>res p' tr. frameAt env p t' a' w' h' =
           (res, p', (Exec i (args nm t' a' w' h'), p\<lparr>isProcessing := True\<rparr>) # tr)) \<and>
         (key t' a w h = key t a w h \<longleftrightarrow>
            (t' < 0 \<longleftrightarrow> t < 0) \<and> nearest 3 \<bar>t'\<bar> = nearest 3 \<bar>t\<bar>)"
proof -
  from differs have "key t' a' w' h' \<noteq> key t a w h"
    by (auto simp: key_eq_iff toFixed_eq_iff)
  with loaded idle cached
  have s: "frameAt_start p t' a' w' h' =
           (Awaiting (args nm t' a' w' h'), p\<lparr>isProcessing := True\<rparr>)"
    by (simp add: frameAt_start_def)
  have "ffmpeg (p\<lparr>isProcessing := True\<rparr>) = Some i"
    using loaded by simp
  from frameAt_resume_head [OF this, of env "args nm t' a' w' h'" t' a' w' h'] s
  have "\<exists>res p' tr. frameAt env p t' a' w' h' =
           (res, p', (Exec i (args nm t' a' w' h'), p\<lparr>isProcessing := True\<rparr>) # tr)"
    by (simp add: frameAt_def)
  with s show ?thesis
    by (simp add: key_eq_iff toFixed_eq_iff)
qed

text \<open>
  The frame for \<open>t = 1\<close>, pitch 0 is cached; asking for \<open>t = 1.001\<close>, or for pitch 1 at
  the same time, runs the backend.
\<close>

theorem cache_key_sensitive_witness:
  "frameAt_start provider_cached (1001 / 1000) angle0 240 135 =
     (Awaiting (args ''/mnt/clip.insv'' (1001 / 1000) angle0 240 135),
      provider_cached\<lparr>isProcessing := True\<rparr>) \<and>
   frameAt_start provider_cached 1 (angle0\<lparr>pitch := 1\<rparr>) 240 135 =
     (Awaiting (args ''/mnt/clip.insv'' 1 (angle0\<lparr>pitch := 1\<rparr>) 240 135),
      provider_cached\<lparr>isProcessing := True\<rparr>)"
proof -
  have l: "ffmpeg provider_cached = Some 0" "name provider_cached = Some ''/mnt/clip.insv''"
    "''/mnt/clip.insv'' \<noteq> []" "\<not> isProcessing provider_cached"
    by (simp_all add: provider_cached_def provider_ready_def)
  have k: "key 1 angle0 240 135 = ''1.000-0-0-0-240-135''"
    by code_simp
  have c: "lastProcessedKey provider_cached = Some (key 1 angle0 240 135)"
    by (simp add: k provider_cached_def)
  have d1: "nearest 3 \<bar>1001 / 1000\<bar> \<noteq> nearest 3 \<bar>1\<bar>"
    by code_simp
  have d2: "pitch (angle0\<lparr>pitch := 1\<rparr>) \<noteq> pitch angle0"
    by (simp add: angle0_def)
  from d1 have
    "nearest 3 \<bar>1001 / 1000\<bar> \<noteq> nearest 3 \<bar>1\<bar> \<or> pitch angle0 \<noteq> pitch angle0 \<or>
     yaw angle0 \<noteq> yaw angle0 \<or> roll angle0 \<noteq> roll angle0 \<or> (240::int) \<noteq> 240 \<or> (135::int) \<noteq> 135"
    by (rule disjI1)
  from cache_key_sensitive [OF l c this, of env_ok]
  have 1: "frameAt_start provider_cached (1001 / 1000) angle0 240 135 =
     (Awaiting (args ''/mnt/clip.insv'' (1001 / 1000) angle0 240 135),
      provider_cached\<lparr>isProcessing := True\<rparr>)"
    by (rule conjunct1)
  from d2 have
    "nearest 3 \<bar>1\<bar> \<noteq> nearest 3 \<bar>1\<bar> \<or> pitch (angle0\<lparr>pitch := 1\<rparr>) \<noteq> pitch angle0 \<or>
     yaw (angle0\<lparr>pitch := 1\<rparr>) \<noteq> yaw angle0 \<or> roll (angle0\<lparr>pitch := 1\<rparr>) \<noteq> roll angle0 \<or>
     (240::int) \<noteq> 240 \<or> (135::int) \<noteq> 135"
    by (intro disjI2 disjI1)
  from cache_key_sensitive [OF l c this, of env_ok]
  have 2: "frameAt_start provider_cached 1 (angle0\<lparr>pitch := 1\<rparr>) 240 135 =
     (Awaiting (args ''/mnt/clip.insv'' 1 (angle0\<lparr>pitch := 1\<rparr>) 240 135),
      provider_cached\<lparr>isProcessing := True\<rparr>)"
    by (rule conjunct1)
  from 1 2 show ?thesis
    by (rule conjI)
qed


section \<open>Backend errors\<close>

text \<open>
  Claim C3, as the code has it. When \<open>exec\<close> rejects with a value whose message contains
  \<open>'out of bounds'\<close> or \<open>'Aborted'\<close>, the provider next terminates the old backend, creates
  a new one and fetches its assets; \<open>exec\<close> is not issued again; the call ends with an
  error, the busy flag cleared and the new backend in place. When the reinitialisation
  goes through (both assets fetched, the backend loaded, and the source mounted or, failing
  that, written), the new backend has been loaded, the source mounted or written, and the
  error thrown to the caller is the original one of \<open>exec\<close>.
\<close>

theorem fatal_exec_error_reinitializes:
  assumes start: "frameAt_start p ts a w h = (Awaiting av, p1)"
    and ex: "exec_out env = Some e"
    and msg: "message e = Some m"
    and f: "str_includes m ''out of bounds'' \<or> str_includes m ''Aborted''"
    and run: "frameAt_resume env p1 av ts a w h = (res, p', tr)"
  shows "\<exists>i rest.
           ffmpeg p = Some i \<and>
           map fst tr = Exec i av # Terminate i # ToBlobURL (baseURL @ ''/ffmpeg-core.js'') # rest \<and>
           (\<forall>j x. Exec j x \<notin> set rest) \<and>
           ffmpeg p' = Some (Suc i) \<and> \<not> isProcessing p' \<and> (\<forall>r. res \<noteq> Inr r) \<and>
           (coreURL_out env = None \<and> wasmURL_out env = None \<and> load_out env = None \<and>
            (createDir_out env = None \<and> mount_out env = None \<or>
             arrayBuffer_out env = None \<and> writeFile_out env = None) \<longrightarrow>
              res = Inl (Raised FromExec e) \<and> Load (Suc i) \<in> set rest \<and>
              (source p \<noteq> None \<longrightarrow>
                 Mount (Suc i) ''/mnt'' \<in> set rest \<or> WriteFile (Suc i) (originalName p) \<in> set rest))"
proof -
  from frameAt_start_Awaiting [OF start]
  obtain i nm where l: "ffmpeg p = Some i" "name p = Some nm" "nm \<noteq> []"
    "p1 = p\<lparr>isProcessing := True\<rparr>"
    by auto
  from msg f have fe: "fatal e"
    by (simp add: fatal_def)
  obtain r p2 tr2 where ri: "reinit env p1 = (r, p2, tr2)"
    by (cases "reinit env p1")
  from run ex fe ri l have res: "res = Inl (case r of None \<Rightarrow> Raised FromExec e | Some re \<Rightarrow> re)"
    and p': "p' = p2\<lparr>isProcessing := False\<rparr>" and tr: "tr = (Exec i av, p1) # tr2"
    by (auto simp: frameAt_resume_def Let_def split: option.splits)
  from ri l have shape:
    "\<exists>rest. map fst tr2 = Terminate i # ToBlobURL (baseURL @ ''/ffmpeg-core.js'') # rest \<and>
      (\<forall>j x. Exec j x \<notin> set rest) \<and>
      (coreURL_out env = None \<and> wasmURL_out env = None \<and> load_out env = None \<and>
            (createDir_out env = None \<and> mount_out env = None \<or>
             arrayBuffer_out env = None \<and> writeFile_out env = None) \<longrightarrow>
              r = None \<and> Load (Suc i) \<in> set rest \<and>
              (source p \<noteq> None \<longrightarrow>
                 Mount (Suc i) ''/mnt'' \<in> set rest \<or> WriteFile (Suc i) (originalName p) \<in> set rest))"
    by (auto simp: reinit_def mountSource_def writeFallback_def newFFmpeg_def Let_def
        split: option.splits)
  from reinit_cache [OF ri] l have "ffmpeg p2 = Some (Suc i)"
    by (simp add: newFFmpeg_def)
  with shape res p' tr l(1) show ?thesis
    by auto
qed

text \<open>
  \<open>exec\<close> rejects with \<open>'Aborted()'\<close> and everything else works: backend 0 is terminated,
  backend 1 is loaded and the source mounted on it, and the caller gets the original error.
\<close>

theorem fatal_exec_error_reinitializes_witness:
  "frameAt_start provider_ready 1 angle0 240 135 =
     (Awaiting (args ''/mnt/clip.insv'' 1 angle0 240 135), provider_ready\<lparr>isProcessing := True\<rparr>) \<and>
   str_includes ''Aborted()'' ''Aborted'' \<and>
   fst (frameAt_resume env_aborted (provider_ready\<lparr>isProcessing := True\<rparr>)
          (args ''/mnt/clip.insv'' 1 angle0 240 135) 1 angle0 240 135) =
     Inl (Raised FromExec (Thrown (Some ''Aborted()''))) \<and>
   ffmpeg (fst (snd (frameAt_resume env_aborted (provider_ready\<lparr>isProcessing := True\<rparr>)
          (args ''/mnt/clip.insv'' 1 angle0 240 135) 1 angle0 240 135))) = Some 1"
proof -
  let ?p1 = "provider_ready\<lparr>isProcessing := True\<rparr>"
  let ?av = "args ''/mnt/clip.insv'' 1 angle0 240 135"
  let ?run = "frameAt_resume env_aborted ?p1 ?av 1 angle0 240 135"
  have start: "frameAt_start provider_ready 1 angle0 240 135 = (Awaiting ?av, ?p1)"
    by code_simp
  have ex: "exec_out env_aborted = Some (Thrown (Some ''Aborted()''))"
    by (simp add: env_aborted_def)
  have msg: "message (Thrown (Some ''Aborted()'')) = Some ''Aborted()''"
    by simp
  have inc: "str_includes ''Aborted()'' ''Aborted''"
    by code_simp
  then have f: "str_includes ''Aborted()'' ''out of bounds'' \<or> str_includes ''Aborted()'' ''Aborted''"
    by (rule disjI2)
  have run: "?run = (fst ?run, fst (snd ?run), snd (snd ?run))"
    by simp
  have ok: "coreURL_out env_aborted = None \<and> wasmURL_out env_aborted = None \<and>
      load_out env_aborted = None \<and>
      (createDir_out env_aborted = None \<and> mount_out env_aborted = None \<or>
       arrayBuffer_out env_aborted = None \<and> writeFile_out env_aborted = None)"
    by (simp add: env_aborted_def env_ok_def)
  have z: "ffmpeg provider_ready = Some 0"
    by (simp add: provider_ready_def)
  from fatal_exec_error_reinitializes [OF start ex msg f run] ok z
  have "fst ?run = Inl (Raised FromExec (Thrown (Some ''Aborted()''))) \<and>
        ffmpeg (fst (snd ?run)) = Some 1"
    by auto
  with start inc show ?thesis
    by (simp only: simp_thms)
qed

text \<open>
  Claim C3 as stated fails when the reinitialisation itself fails: here \<open>exec\<close> rejects with
  \<open>'Aborted()'\<close> and loading the new backend rejects too; the caller gets the error of the
  load, not the original error of \<open>exec\<close>.
\<close>

theorem failed_reload_replaces_exec_error:
  "fst (frameAt env_reload_fails provider_ready 1 angle0 240 135) =
     Inl (Raised FromLoad (Thrown (Some ''failed to import ffmpeg-core.js''))) \<and>
   fst (frameAt env_reload_fails provider_ready 1 angle0 240 135) \<noteq>
     Inl (Raised FromExec (Thrown (Some ''Aborted()'')))"
  by code_simp

text \<open>
  Claim C10. When \<open>exec\<close> rejects with a value whose message contains neither
  \<open>'out of bounds'\<close> nor \<open>'Aborted'\<close> (or that has no message), the backend is left as it
  is: the call goes on to read \<open>out.jpg\<close> and to delete it, and awaits nothing else, in
  particular no terminate and no load. The value thrown by \<open>exec\<close> never reaches the
  caller, and the call throws \<open>'Failed to extract reprojected frame'\<close> exactly when reading
  or decoding \<open>out.jpg\<close> yields nothing.
\<close>

theorem nonfatal_exec_error_is_swallowed:
  assumes start: "frameAt_start p ts a w h = (Awaiting av, p1)"
    and ex: "exec_out env = Some e"
    and nf: "\<forall>m. message e = Some m \<longrightarrow>
               \<not> str_includes m ''out of bounds'' \<and> \<not> str_includes m ''Aborted''"
    and run: "frameAt_resume env p1 av ts a w h = (res, p', tr)"
  shows "ffmpeg p' = ffmpeg p \<and> name p' = name p \<and>
         (\<exists>i. ffmpeg p = Some i \<and>
              map fst tr = Exec i av # map fst (snd (readImage env p1 outName)) @
                             [DeleteFile i outName]) \<and>
         (\<forall>j. Terminate j \<notin> fst ` set tr \<and> Load j \<notin> fst ` set tr) \<and>
         res \<noteq> Inl (Raised FromExec e) \<and>
         (res = Inl ExtractFailed \<longleftrightarrow> fst (readImage env p1 outName) = None)"
proof -
  from frameAt_start_Awaiting [OF start]
  obtain i nm where l: "ffmpeg p = Some i" "name p = Some nm" "nm \<noteq> []"
    "p1 = p\<lparr>isProcessing := True\<rparr>"
    by auto
  from nf have "\<not> fatal e"
    by (auto simp: fatal_def split: option.splits)
  with ex run have f: "finish env p1 ts a w h [(Exec i av, p1)] = (res, p', tr)"
    using l by (simp add: frameAt_resume_def)
  obtain b tr1 where r: "readImage env p1 outName = (b, tr1)"
    by (cases "readImage env p1 outName")
  have no: "(Terminate j, x) \<notin> set tr1 \<and> (Load j, x) \<notin> set tr1" for j x
    using r by (auto simp: readImage_def split: option.splits sum.splits file_data.splits)
  from f r l no show ?thesis
    by (auto simp: finish_def Let_def split: option.splits sum.splits)
qed

theorem nonfatal_exec_error_is_swallowed_witness:
  "frameAt_start provider_ready 1 angle0 240 135 =
     (Awaiting (args ''/mnt/clip.insv'' 1 angle0 240 135), provider_ready\<lparr>isProcessing := True\<rparr>) \<and>
   \<not> str_includes ''called FFmpeg.terminate()'' ''out of bounds'' \<and>
   \<not> str_includes ''called FFmpeg.terminate()'' ''Aborted'' \<and>
   fst (frameAt_resume env_exec_rejected (provider_ready\<lparr>isProcessing := True\<rparr>)
          (args ''/mnt/clip.insv'' 1 angle0 240 135) 1 angle0 240 135) = Inl ExtractFailed \<and>
   ffmpeg (fst (snd (frameAt_resume env_exec_rejected (provider_ready\<lparr>isProcessing := True\<rparr>)
          (args ''/mnt/clip.insv'' 1 angle0 240 135) 1 angle0 240 135))) = Some 0"
proof -
  let ?p1 = "provider_ready\<lparr>isProcessing := True\<rparr>"
  let ?av = "args ''/mnt/clip.insv'' 1 angle0 240 135"
  let ?run = "frameAt_resume env_exec_rejected ?p1 ?av 1 angle0 240 135"
  have start: "frameAt_start provider_ready 1 angle0 240 135 = (Awaiting ?av, ?p1)"
    by code_simp
  have ex: "exec_out env_exec_rejected = Some (Thrown (Some ''called FFmpeg.terminate()''))"
    by (simp add: env_exec_rejected_def)
  have n1: "\<not> str_includes ''called FFmpeg.terminate()'' ''out of bounds''"
    by code_simp
  have n2: "\<not> str_includes ''called FFmpeg.terminate()'' ''Aborted''"
    by code_simp
  have nf: "\<forall>m. message (Thrown (Some ''called FFmpeg.terminate()'')) = Some m \<longrightarrow>
               \<not> str_includes m ''out of bounds'' \<and> \<not> str_includes m ''Aborted''"
    using n1 n2 by auto
  have run: "?run = (fst ?run, fst (snd ?run), snd (snd ?run))"
    by simp
  have rd: "fst (readImage env_exec_rejected ?p1 outName) = None"
    by code_simp
  have z: "ffmpeg provider_ready = Some 0"
    by (simp add: provider_ready_def)
  from nonfatal_exec_error_is_swallowed [OF start ex nf run] rd z
  have "fst ?run = Inl ExtractFailed \<and> ffmpeg (fst (snd ?run)) = Some 0"
    by simp
  with start n1 n2 show ?thesis
    by (simp only: simp_thms)
qed


section \<open>Rotation and sampling\<close>

text \<open>
  Claim C6. \<open>rotateVec\<close> is the rotation about the vertical axis by the yaw, followed by the
  rotation about the horizontal axis by the pitch, followed by the rotation about the
  optical axis by the roll, each the standard matrix, which leaves its axis fixed; the
  result has the length of the input, and with all three angles zero it is the input
  (exactly so in real arithmetic).
\<close>

theorem rotateVec_is_yaw_pitch_roll:
  "rotateVec vx vy vz yawDeg pitchDeg rollDeg =
     mat_vec (rot_optical (toRad rollDeg))
       (mat_vec (rot_horizontal (toRad pitchDeg))
          (mat_vec (rot_vertical (toRad yawDeg)) (vx, vy, vz))) \<and>
   mat_vec (rot_vertical t) (0, 1, 0) = (0, 1, 0) \<and>
   mat_vec (rot_horizontal t) (1, 0, 0) = (1, 0, 0) \<and>
   mat_vec (rot_optical t) (0, 0, 1) = (0, 0, 1) \<and>
   dot (rotateVec vx vy vz yawDeg pitchDeg rollDeg) (rotateVec vx vy vz yawDeg pitchDeg rollDeg) =
     dot (vx, vy, vz) (vx, vy, vz) \<and>
   rotateVec vx vy vz 0 0 0 = (vx, vy, vz)"
proof -
  have "rotateVec vx vy vz yawDeg pitchDeg rollDeg =
     mat_vec (rot_optical (toRad rollDeg))
       (mat_vec (rot_horizontal (toRad pitchDeg))
          (mat_vec (rot_vertical (toRad yawDeg)) (vx, vy, vz)))"
    by (simp add: rotateVec_def mat_vec_def dot_def rot_optical_def rot_horizontal_def
        rot_vertical_def toRad_def Let_def mult.commute)
  moreover have "rotateVec vx vy vz 0 0 0 = (vx, vy, vz)"
    by (simp add: rotateVec_def toRad_def)
  ultimately show ?thesis
    using rot_facts [of t] rot_norm [of vx vy vz yawDeg pitchDeg rollDeg] by simp
qed

theorem rotateVec_is_yaw_pitch_roll_witness:
  "rotateVec 1 2 3 0 0 0 = (1, 2, 3) \<and>
   rotateVec 1 2 3 90 0 0 = (3, 2, - 1) \<and>
   dot (rotateVec 1 2 3 30 45 60) (rotateVec 1 2 3 30 45 60) = 14"
proof -
  have a: "rotateVec 1 2 3 90 0 0 = (3, 2, - 1)"
    by (simp add: rotateVec_def toRad_def)
  have b: "dot (1, 2, 3) (1, 2, 3) = 14"
    by (simp add: dot_def)
  from rotateVec_is_yaw_pitch_roll [of 1 2 3 30 45 60 0]
  have c: "dot (rotateVec 1 2 3 30 45 60) (rotateVec 1 2 3 30 45 60) = dot (1, 2, 3) (1, 2, 3)"
    and d: "rotateVec 1 2 3 0 0 0 = (1, 2, 3)"
    by blast+
  from a c d show ?thesis
    unfolding b by blast
qed

text \<open>
  Claim C7. \<open>bilinearSample\<close> depends on \<open>u\<close> only through \<open>u - floor(u)\<close>, which lies in
  \<open>[0, 1)\<close>, and on \<open>v\<close> only through its clamp into \<open>[0, 1]\<close>. So sampling at
  \<open>u = -0.001\<close> gives what sampling at \<open>u = 0.999\<close> gives, sampling at any \<open>v < 0\<close> gives
  what \<open>v = 0\<close> gives, and sampling at any \<open>v > 1\<close> what \<open>v = 1\<close> gives.
\<close>

theorem bilinearSample_wraps_and_clamps:
  "bilinearSample img u v out ofs =
     bilinearSample img (u - of_int \<lfloor>u\<rfloor>) (max 0 (min 1 v)) out ofs \<and>
   0 \<le> u - of_int \<lfloor>u\<rfloor> \<and> u - of_int \<lfloor>u\<rfloor> < 1 \<and>
   0 \<le> max 0 (min 1 v) \<and> max 0 (min 1 v) \<le> 1 \<and>
   bilinearSample img (- 1 / 1000) v out ofs = bilinearSample img (999 / 1000) v out ofs \<and>
   (v < 0 \<longrightarrow> bilinearSample img u v out ofs = bilinearSample img u 0 out ofs) \<and>
   (v > 1 \<longrightarrow> bilinearSample img u v out ofs = bilinearSample img u 1 out ofs)"
proof -
  have fl: "\<lfloor>u - of_int \<lfloor>u\<rfloor>\<rfloor> = 0"
    by linarith
  have 1: "bilinearSample img u v out ofs =
     bilinearSample img (u - of_int \<lfloor>u\<rfloor>) (max 0 (min 1 v)) out ofs"
    by (rule bilinearSample_cong) (simp_all add: fl)
  have 2: "0 \<le> u - of_int \<lfloor>u\<rfloor> \<and> u - of_int \<lfloor>u\<rfloor> < 1"
    by linarith
  have 3: "bilinearSample img (- 1 / 1000) v out ofs = bilinearSample img (999 / 1000) v out ofs"
    by (rule bilinearSample_cong) simp_all
  have 4: "bilinearSample img u v out ofs = bilinearSample img u 0 out ofs" if "v < 0"
    by (rule bilinearSample_cong) (use that in simp_all)
  have 5: "bilinearSample img u v out ofs = bilinearSample img u 1 out ofs" if "v > 1"
    by (rule bilinearSample_cong) (use that in simp_all)
  from 1 2 3 4 5 show ?thesis
    by simp
qed

text \<open>
  On a \<open>2 \<times> 2\<close> image: the middle of the seam column at \<open>u = -0.001\<close> and at \<open>u = 0.999\<close>,
  and a row above the top edge.
\<close>

theorem bilinearSample_wraps_and_clamps_witness:
  "bilinearSample img2x2 (- 1 / 1000) (1 / 2) [0, 0, 0, 0] 0 = [180, 180, 180, 255] \<and>
   bilinearSample img2x2 (999 / 1000) (1 / 2) [0, 0, 0, 0] 0 = [180, 180, 180, 255] \<and>
   (- 3 :: real) < 0 \<and>
   bilinearSample img2x2 (1 / 4) (- 3) [0, 0, 0, 0] 0 = [35, 45, 55, 255] \<and>
   (5 :: real) > 1 \<and>
   bilinearSample img2x2 (1 / 4) 5 [0, 0, 0, 0] 0 = [100, 105, 110, 255]"
proof -
  have a: "bilinearSample img2x2 (999 / 1000) (1 / 2) [0, 0, 0, 0] 0 = [180, 180, 180, 255]"
    by code_simp
  have b: "bilinearSample img2x2 (1 / 4) 0 [0, 0, 0, 0] 0 = [35, 45, 55, 255]"
    by code_simp
  have c: "bilinearSample img2x2 (1 / 4) 1 [0, 0, 0, 0] 0 = [100, 105, 110, 255]"
    by code_simp
  have n: "(- 3 :: real) < 0" and g: "(5 :: real) > 1"
    by simp_all
  from bilinearSample_wraps_and_clamps [of img2x2 "1 / 4" "- 3" "[0, 0, 0, 0]" 0]
  have "(- 3 :: real) < 0 \<longrightarrow> bilinearSample img2x2 (1 / 4) (- 3) [0, 0, 0, 0] 0 =
      bilinearSample img2x2 (1 / 4) 0 [0, 0, 0, 0] 0"
    by blast
  with n b have 1: "bilinearSample img2x2 (1 / 4) (- 3) [0, 0, 0, 0] 0 = [35, 45, 55, 255]"
    by (simp only:)
  from bilinearSample_wraps_and_clamps [of img2x2 "1 / 4" 5 "[0, 0, 0, 0]" 0]
  have "(5 :: real) > 1 \<longrightarrow> bilinearSample img2x2 (1 / 4) 5 [0, 0, 0, 0] 0 =
      bilinearSample img2x2 (1 / 4) 1 [0, 0, 0, 0] 0"
    by blast
  with g c have 2: "bilinearSample img2x2 (1 / 4) 5 [0, 0, 0, 0] 0 = [100, 105, 110, 255]"
    by (simp only:)
  from bilinearSample_wraps_and_clamps [of img2x2 0 "1 / 2" "[0, 0, 0, 0]" 0]
  have "bilinearSample img2x2 (- 1 / 1000) (1 / 2) [0, 0, 0, 0] 0 =
      bilinearSample img2x2 (999 / 1000) (1 / 2) [0, 0, 0, 0] 0"
    by blast
  with a have 3: "bilinearSample img2x2 (- 1 / 1000) (1 / 2) [0, 0, 0, 0] 0 = [180, 180, 180, 255]"
    by (simp only:)
  from 1 2 3 a n g show ?thesis
    by blast
qed


section \<open>Export timestamps and file names\<close>

text \<open>
  Claim C8, as the code has it. The step is \<open>1 / max(1, samplesPerSecond)\<close>, rounded to a
  double; it is 1 for every rate of at most one sample per second. With \<open>t\<^sub>0 = 0\<close> and
  \<open>t\<^sub>k\<^sub>+\<^sub>1 = t\<^sub>k + step\<close> in double arithmetic, the export takes the samples
  \<open>min(t\<^sub>k, duration)\<close> for \<open>k = 0, \<dots>, n - 1\<close>, where \<open>t\<^sub>n\<close> is the first running sum above
  \<open>duration + 10\<^sup>-\<^sup>6\<close>: when there is such an \<open>n\<close> the loop returns exactly these samples, and
  whenever it returns, it returns them. No sample exceeds the duration. When
  \<open>max(1, samplesPerSecond)\<close> is a power of two \<open>2\<^sup>j\<close>, as at one sample per second, and fewer
  than \<open>2\<^sup>5\<^sup>3\<close> samples are taken, the running sums are the exact multiples \<open>k / 2\<^sup>j\<close>. For a
  duration of 2 seconds, one sample per second and one camera angle the export visits
  exactly three cells, at 0, 1 and 2.
\<close>

theorem export_timestamps:
  "((\<forall>k<n. running_sum (step sps) k \<le> bound d) \<and> bound d < running_sum (step sps) n \<longrightarrow>
      export_times sps d = Some (map (\<lambda>k. min (running_sum (step sps) k) d) [0..<n])) \<and>
   (export_times sps d = Some ts \<longrightarrow>
      (\<forall>x \<in> set ts. x \<le> d) \<and>
      (\<exists>m. (\<forall>k<m. running_sum (step sps) k \<le> bound d) \<and> bound d < running_sum (step sps) m \<and>
           ts = map (\<lambda>k. min (running_sum (step sps) k) d) [0..<m])) \<and>
   (sps \<le> 1 \<longrightarrow> step sps = 1) \<and>
   (max 1 sps = 2 ^ j \<and> j \<le> 1074 \<and> 0 \<le> bound d \<and> nat \<lfloor>bound d * 2 ^ j\<rfloor> + 1 < 2 ^ 53 \<longrightarrow>
      step sps = 1 / 2 ^ j \<and>
      export_times sps d =
        Some (map (\<lambda>k. min (real k / 2 ^ j) d) [0..<nat \<lfloor>bound d * 2 ^ j\<rfloor> + 1])) \<and>
   export_times 1 2 = Some [0, 1, 2] \<and>
   extractFrames True 1 2 [cam] =
     Some (Inr [(0, cam, fname cam 0), (1, cam, fname cam 1), (2, cam, fname cam 2)])"
proof -
  have 1: "(\<forall>k<n. running_sum (step sps) k \<le> bound d) \<and> bound d < running_sum (step sps) n \<longrightarrow>
      export_times sps d = Some (map (\<lambda>k. min (running_sum (step sps) k) d) [0..<n])"
    unfolding export_times_def running_sum_funpow
    using times_from_returns [of n "step sps" 0 d] by blast
  have 2: "export_times sps d = Some ts \<longrightarrow>
      (\<forall>x \<in> set ts. x \<le> d) \<and>
      (\<exists>m. (\<forall>k<m. running_sum (step sps) k \<le> bound d) \<and> bound d < running_sum (step sps) m \<and>
           ts = map (\<lambda>k. min (running_sum (step sps) k) d) [0..<m])"
    unfolding export_times_def running_sum_funpow
    using times_from_Some [of "step sps" d 0 ts] times_from_le [of "step sps" d 0 ts] by blast
  have one: "round64 1 = 1"
    by code_simp
  have 3: "sps \<le> 1 \<longrightarrow> step sps = 1"
    by (simp add: step_def max_def one)
  have 4: "max 1 sps = 2 ^ j \<and> j \<le> 1074 \<and> 0 \<le> bound d \<and> nat \<lfloor>bound d * 2 ^ j\<rfloor> + 1 < 2 ^ 53 \<longrightarrow>
      step sps = 1 / 2 ^ j \<and>
      export_times sps d =
        Some (map (\<lambda>k. min (real k / 2 ^ j) d) [0..<nat \<lfloor>bound d * 2 ^ j\<rfloor> + 1])"
    using export_times_exact [of sps j d] step_exact [of sps j] by (simp add: step_def)
  have 5: "export_times 1 2 = Some [0, 1, 2]"
    by code_simp
  have 6: "extractFrames True 1 2 [cam] =
     Some (Inr [(0, cam, fname cam 0), (1, cam, fname cam 1), (2, cam, fname cam 2)])"
    by (simp add: extractFrames_def 5)
  from 1 2 3 4 5 6 show ?thesis
    by blast
qed

text \<open>
  At two samples per second and a duration of one second the sums are exact; at ten per
  second and 0.3 seconds they are not: the third sample is the double \<open>0.2\<close>, and the fourth
  running sum, \<open>0.30000000000000004\<close>, is clamped to the duration.
\<close>

theorem export_timestamps_witness:
  "max 1 2 = (2::real) ^ 1 \<and> (1::nat) \<le> 1074 \<and> 0 \<le> bound 1 \<and>
   nat \<lfloor>bound 1 * 2 ^ 1\<rfloor> + 1 < 2 ^ 53 \<and>
   step 2 = 1 / 2 \<and> export_times 2 1 = Some [0, 1 / 2, 1] \<and>
   running_sum (step 10) 3 \<le> bound (3 / 10) \<and> bound (3 / 10) < running_sum (step 10) 4 \<and>
   export_times 10 (3 / 10) =
     Some [0, 3602879701896397 / 36028797018963968, 3602879701896397 / 18014398509481984, 3 / 10] \<and>
   extractFrames True 1 2 [camera1] =
     Some (Inr [(0, camera1, ''Angle_1_0_00.jpg''), (1, camera1, ''Angle_1_1_00.jpg''),
                (2, camera1, ''Angle_1_2_00.jpg'')])"
proof -
  have h0: "max 1 2 = (2::real) ^ 1 \<and> (1::nat) \<le> 1074 \<and> 0 \<le> bound 1"
    by code_simp
  have "nat \<lfloor>bound 1 * 2 ^ 1\<rfloor> = 2"
    by code_simp
  then have "nat \<lfloor>bound 1 * 2 ^ 1\<rfloor> + 1 < 2 ^ 53"
    by simp
  with h0 have h: "max 1 2 = (2::real) ^ 1 \<and> (1::nat) \<le> 1074 \<and> 0 \<le> bound 1 \<and>
      nat \<lfloor>bound 1 * 2 ^ 1\<rfloor> + 1 < 2 ^ 53"
    by blast
  have v: "map (\<lambda>k. min (real k / 2 ^ 1) 1) [0..<nat \<lfloor>bound 1 * 2 ^ 1\<rfloor> + 1] = [0, 1 / 2, 1]"
    by code_simp
  from export_timestamps [of 0 2 1 "[]" 1 camera1]
  have "max 1 2 = (2::real) ^ 1 \<and> (1::nat) \<le> 1074 \<and> 0 \<le> bound 1 \<and>
      nat \<lfloor>bound 1 * 2 ^ 1\<rfloor> + 1 < 2 ^ 53 \<longrightarrow>
      step 2 = 1 / 2 ^ 1 \<and>
      export_times 2 1 = Some (map (\<lambda>k. min (real k / 2 ^ 1) 1) [0..<nat \<lfloor>bound 1 * 2 ^ 1\<rfloor> + 1])"
    and c: "extractFrames True 1 2 [camera1] =
      Some (Inr [(0, camera1, fname camera1 0), (1, camera1, fname camera1 1),
                 (2, camera1, fname camera1 2)])"
    by blast+
  from this(1) h have "step 2 = 1 / 2 ^ 1 \<and>
      export_times 2 1 = Some (map (\<lambda>k. min (real k / 2 ^ 1) 1) [0..<nat \<lfloor>bound 1 * 2 ^ 1\<rfloor> + 1])"
    by (rule mp)
  then have a: "step 2 = 1 / 2" and b: "export_times 2 1 = Some [0, 1 / 2, 1]"
    unfolding v by simp_all
  have r: "running_sum (step 10) 0 \<le> bound (3 / 10)" "running_sum (step 10) 1 \<le> bound (3 / 10)"
    "running_sum (step 10) 2 \<le> bound (3 / 10)" "running_sum (step 10) 3 \<le> bound (3 / 10)"
    "bound (3 / 10) < running_sum (step 10) 4"
    by code_simp+
  have q: "\<forall>k<4. running_sum (step 10) k \<le> bound (3 / 10)"
  proof (intro allI impI)
    fix k :: nat assume "k < 4"
    then consider "k = 0" | "k = 1" | "k = 2" | "k = 3" by linarith
    then show "running_sum (step 10) k \<le> bound (3 / 10)"
      using r by cases simp_all
  qed
  have w: "map (\<lambda>k. min (running_sum (step 10) k) (3 / 10)) [0..<4] =
      [0, 3602879701896397 / 36028797018963968, 3602879701896397 / 18014398509481984, 3 / 10]"
    by code_simp
  from export_timestamps [of 4 10 "3 / 10" "[]" 0 camera1]
  have "(\<forall>k<4. running_sum (step 10) k \<le> bound (3 / 10)) \<and>
      bound (3 / 10) < running_sum (step 10) 4 \<longrightarrow>
      export_times 10 (3 / 10) =
        Some (map (\<lambda>k. min (running_sum (step 10) k) (3 / 10)) [0..<4])"
    by blast
  with q r(5) have e: "export_times 10 (3 / 10) =
      Some [0, 3602879701896397 / 36028797018963968, 3602879701896397 / 18014398509481984, 3 / 10]"
    unfolding w by blast
  have n: "fname camera1 0 = ''Angle_1_0_00.jpg''" "fname camera1 1 = ''Angle_1_1_00.jpg''"
    "fname camera1 2 = ''Angle_1_2_00.jpg''"
    by code_simp+
  from c have c': "extractFrames True 1 2 [camera1] =
     Some (Inr [(0, camera1, ''Angle_1_0_00.jpg''), (1, camera1, ''Angle_1_1_00.jpg''),
                (2, camera1, ''Angle_1_2_00.jpg'')])"
    unfolding n .
  from h a b r(4) r(5) e c' show ?thesis
    by blast
qed

text \<open>
  Claim C8 as stated fails in three ways. For a rate below one sample per second the step
  is still one second: at half a sample per second it is not \<open>1 / samplesPerSecond\<close> = 2
  seconds. The samples need not end at the duration: for 2.5 seconds at one sample per
  second the last sample is at 2. And the samples are running sums in double arithmetic,
  not the multiples of the step: at ten samples per second and a duration of one second
  the last of the eleven samples is \<open>0.9999999999999999\<close>, not the duration.
\<close>

theorem export_step_is_at_most_one_second:
  "export_times (1 / 2) 2 = Some [0, 1, 2] \<and> step (1 / 2) \<noteq> 1 / (1 / 2) \<and>
   export_times 1 (5 / 2) = Some [0, 1, 2] \<and>
   map_option last (export_times 10 1) = Some (9007199254740991 / 9007199254740992) \<and>
   map_option last (export_times 10 1) \<noteq> Some 1"
proof -
  have a: "export_times (1 / 2) 2 = Some [0, 1, 2] \<and> step (1 / 2) \<noteq> 1 / (1 / 2) \<and>
      export_times 1 (5 / 2) = Some [0, 1, 2]"
    by code_simp
  have b: "map_option last (export_times 10 1) = Some (9007199254740991 / 9007199254740992)"
    by code_simp
  have "map_option last (export_times 10 1) \<noteq> Some 1"
    unfolding b by simp
  with a b show ?thesis
    by blast
qed

text \<open>
  Claim C9, as the code has it. The file of a cell is named
  \<open>safeLabel_tsStr.jpg\<close>. The label part is the camera label in which every maximal run of
  characters outside \<open>[a-zA-Z0-9-_]\<close> is replaced by a single underscore and all other
  characters are kept, so it consists of characters of that class only; it is \<open>Angle_\<close>
  followed by the camera id when, and only when, the label is empty. The time part is the
  timestamp with two decimals and an underscore for the decimal point: for \<open>ts \<ge> 0\<close>, with
  \<open>n\<close> the timestamp in hundredths rounded half up, the decimal digits of \<open>n div 100\<close>, an
  underscore, and the two digits of \<open>n mod 100\<close>.
\<close>

theorem export_file_name:
  "fname cam ts = safeLabel cam @ ''_'' @ tsStr ts @ ''.jpg'' \<and>
   safeLabel cam =
     (if cam_label cam = [] then ''Angle_'' @ numToString (cam_id cam)
      else sanitize (cam_label cam)) \<and>
   (\<forall>c \<in> set (sanitize s). allowed c) \<and>
   ((\<forall>c \<in> set xs. allowed c) \<longrightarrow> sanitize (xs @ ys) = xs @ sanitize ys) \<and>
   (r \<noteq> [] \<and> (\<forall>c \<in> set r. \<not> allowed c) \<and> (rest = [] \<or> allowed (hd rest)) \<longrightarrow>
      sanitize (r @ rest) = CHR ''_'' # sanitize rest) \<and>
   (0 \<le> ts \<longrightarrow>
      tsStr ts = decimal (nearest 2 ts div 100) @ ''_'' @
        [digit_char (nearest 2 ts div 10 mod 10), digit_char (nearest 2 ts mod 10)])"
proof -
  have 1: "fname cam ts = safeLabel cam @ ''_'' @ tsStr ts @ ''.jpg''"
    by (simp add: fname_def)
  note 2 = safeLabel_eq [of cam]
  note 3 = sanitize_allowed [of s]
  have 4: "(\<forall>c \<in> set xs. allowed c) \<longrightarrow> sanitize (xs @ ys) = xs @ sanitize ys"
    using sanitize_keep [of xs ys] by blast
  have 5: "r \<noteq> [] \<and> (\<forall>c \<in> set r. \<not> allowed c) \<and> (rest = [] \<or> allowed (hd rest)) \<longrightarrow>
      sanitize (r @ rest) = CHR ''_'' # sanitize rest"
    using sanitize_run [of r rest] by blast
  have 6: "0 \<le> ts \<longrightarrow>
      tsStr ts = decimal (nearest 2 ts div 100) @ ''_'' @
        [digit_char (nearest 2 ts div 10 mod 10), digit_char (nearest 2 ts mod 10)]"
    using tsStr_nonneg [of ts] by blast
  from 1 2 3 4 5 6 show ?thesis
    by blast
qed

theorem export_file_name_witness:
  "fname (camera1\<lparr>cam_label := ''Angle (1)''\<rparr>) (12345 / 1000) = ''Angle_1__12_35.jpg'' \<and>
   fname (camera1\<lparr>cam_label := ''''\<rparr>) 2 = ''Angle_1_2_00.jpg'' \<and>
   sanitize (''Angle'' @ '' (1)'') = ''Angle'' @ sanitize '' (1)'' \<and>
   sanitize ('' ('' @ ''1)'') = CHR ''_'' # sanitize ''1)'' \<and>
   (0::real) \<le> 12345 / 1000 \<and> tsStr (12345 / 1000) = ''12_35''"
proof -
  have a: "fname (camera1\<lparr>cam_label := ''Angle (1)''\<rparr>) (12345 / 1000) = ''Angle_1__12_35.jpg''"
    by code_simp
  have b: "fname (camera1\<lparr>cam_label := ''''\<rparr>) 2 = ''Angle_1_2_00.jpg''"
    by code_simp
  have c: "\<forall>c \<in> set ''Angle''. allowed c"
    by code_simp
  have d: "'' ('' \<noteq> [] \<and> (\<forall>c \<in> set '' (''. \<not> allowed c) \<and> (''1)'' = [] \<or> allowed (hd ''1)''))"
    by code_simp
  have e: "(0::real) \<le> 12345 / 1000"
    by simp
  have f: "decimal (nearest 2 (12345 / 1000) div 100) @ ''_'' @
        [digit_char (nearest 2 (12345 / 1000) div 10 mod 10),
         digit_char (nearest 2 (12345 / 1000) mod 10)] = ''12_35''"
    by code_simp
  from export_file_name [of "camera1\<lparr>cam_label := ''Angle (1)''\<rparr>" "12345 / 1000"
      "''Angle (1)''" "''Angle''" "'' (1)''" "'' (''" "''1)''"]
  have k: "(\<forall>c \<in> set ''Angle''. allowed c) \<longrightarrow>
        sanitize (''Angle'' @ '' (1)'') = ''Angle'' @ sanitize '' (1)''"
    and r: "'' ('' \<noteq> [] \<and> (\<forall>c \<in> set '' (''. \<not> allowed c) \<and> (''1)'' = [] \<or> allowed (hd ''1)'')) \<longrightarrow>
        sanitize ('' ('' @ ''1)'') = CHR ''_'' # sanitize ''1)''"
    and t: "(0::real) \<le> 12345 / 1000 \<longrightarrow>
        tsStr (12345 / 1000) =
          decimal (nearest 2 (12345 / 1000) div 100) @ ''_'' @
            [digit_char (nearest 2 (12345 / 1000) div 10 mod 10),
             digit_char (nearest 2 (12345 / 1000) mod 10)]"
    by blast+
  from k c have k': "sanitize (''Angle'' @ '' (1)'') = ''Angle'' @ sanitize '' (1)''"
    by (rule mp)
  from r d have r': "sanitize ('' ('' @ ''1)'') = CHR ''_'' # sanitize ''1)''"
    by (rule mp)
  from t e have "tsStr (12345 / 1000) =
          decimal (nearest 2 (12345 / 1000) div 100) @ ''_'' @
            [digit_char (nearest 2 (12345 / 1000) div 10 mod 10),
             digit_char (nearest 2 (12345 / 1000) mod 10)]"
    by (rule mp)
  then have t': "tsStr (12345 / 1000) = ''12_35''"
    unfolding f .
  from a b k' r' e t' show ?thesis
    by blast
qed

text \<open>
  Claim C9 as stated fails where two characters outside the class are adjacent: the label
  \<open>Angle (1)\<close> becomes \<open>Angle_1_\<close>, whereas replacing every such character by an underscore
  would give \<open>Angle__1_\<close>.
\<close>

theorem sanitize_collapses_runs:
  "safeLabel (camera1\<lparr>cam_label := ''Angle (1)''\<rparr>) = ''Angle_1_'' \<and>
   replace_each ''Angle (1)'' = ''Angle__1_'' \<and>
   safeLabel (camera1\<lparr>cam_label := ''Angle (1)''\<rparr>) \<noteq> replace_each ''Angle (1)''"
  by code_simp

end
